theory Spec2Isabelle
  imports Main
begin

section \<open>Text: the string operations the scraper relies on\<close>

text \<open>
  The scraper works on Python \<open>str\<close> values. A text is modelled as a \<open>string\<close>, one
  \<open>char\<close> per code point, which covers the code points 0 to 255. In that range the
  characters Python's \<open>str.isspace\<close> accepts are 9 to 13, 28 to 32, 133 and 160, and the
  characters the regular expression class \<open>\d\<close> accepts are the ten ASCII digits.
\<close>

definition isspace :: "char \<Rightarrow> bool" where
  "isspace c =
     (let n = (of_char c :: nat)
      in (9 \<le> n \<and> n \<le> 13) \<or> (28 \<le> n \<and> n \<le> 32) \<or> n = 133 \<or> n = 160)"

definition isdigit :: "char \<Rightarrow> bool" where
  "isdigit c = (let n = (of_char c :: nat) in 48 \<le> n \<and> n \<le> 57)"

definition strip :: "string \<Rightarrow> string" where
  \<comment> \<open>\<open>s.strip()\<close>: leading and trailing whitespace removed\<close>
  "strip s = rev (dropWhile isspace (rev (dropWhile isspace s)))"

fun split :: "char \<Rightarrow> string \<Rightarrow> string list" where
  \<comment> \<open>\<open>s.split(sep)\<close> for a one-character separator: one more part than separators\<close>
  "split sep [] = [[]]"
| "split sep (c # cs) =
     (if c = sep then [] # split sep cs
      else (case split sep cs of
              [] \<Rightarrow> [[c]]
            | p # ps \<Rightarrow> (c # p) # ps))"

definition startswith :: "string \<Rightarrow> string \<Rightarrow> bool" where
  "startswith s p = (take (length p) s = p)"

definition sub :: "string \<Rightarrow> nat \<Rightarrow> nat \<Rightarrow> string" where
  \<comment> \<open>the slice \<open>s[i : i + n]\<close>\<close>
  "sub s i n = take n (drop i s)"

fun str :: "nat \<Rightarrow> string" where
  \<comment> \<open>\<open>str(n)\<close> for a non-negative integer: its decimal digits\<close>
  "str n = (if n < 10 then [char_of (48 + n)] else str (n div 10) @ [char_of (48 + n mod 10)])"

declare str.simps [simp del]

section \<open>Regular expressions of fixed shape\<close>

text \<open>
  The three patterns of \<open>parse_date\<close> are sequences of single-character items, a digit
  class or a literal, without repetition or alternation. For such a pattern
  \<open>re.search\<close> returns the match at the leftmost position where the pattern fits.
  \<open>re_search\<close> returns the text from that position on; the groups are slices of it.
\<close>

datatype atom = Digit | Lit char

fun atom_matches :: "atom \<Rightarrow> char \<Rightarrow> bool" where
  "atom_matches Digit c = isdigit c"
| "atom_matches (Lit l) c = (c = l)"

fun match_at :: "atom list \<Rightarrow> string \<Rightarrow> bool" where
  "match_at [] s = True"
| "match_at (a # as) [] = False"
| "match_at (a # as) (c # cs) = (atom_matches a c \<and> match_at as cs)"

fun re_search :: "atom list \<Rightarrow> string \<Rightarrow> string option" where
  "re_search p [] = (if match_at p [] then Some [] else None)"
| "re_search p (c # cs) = (if match_at p (c # cs) then Some (c # cs) else re_search p cs)"

definition date_pattern_full :: "atom list" where
  \<comment> \<open>\<open>(\d{2})\.(\d{2})\.(\d{4})\<close>\<close>
  "date_pattern_full =
     [Digit, Digit, Lit CHR ''.'', Digit, Digit, Lit CHR ''.'', Digit, Digit, Digit, Digit]"

definition date_pattern_short :: "atom list" where
  \<comment> \<open>\<open>(\d{2})\.(\d{2})\.\<close>\<close>
  "date_pattern_short = [Digit, Digit, Lit CHR ''.'', Digit, Digit, Lit CHR ''.'']"

definition year_pattern :: "atom list" where
  \<comment> \<open>\<open>(\d{4})\<close>\<close>
  "year_pattern = [Digit, Digit, Digit, Digit]"

section \<open>The outside world\<close>

text \<open>
  The scraper reads the wall clock, requests pages and pauses. The environment fixes what
  the outside world answers: the \<open>k\<close>-th reading of the clock, the outcome of the
  \<open>k\<close>-th page request (a parsed document, or \<open>None\<close> when the request fails), and the
  standard library's \<open>urljoin\<close>. The world counts the readings, requests and seconds of
  pause so far, so that every call sees its own answer. Logging is a side channel with no
  effect on any returned value and is left out.
\<close>

record datetime =
  year :: nat
  month :: nat
  day :: nat
  hour :: nat
  minute :: nat
  second :: nat

datatype node =
    NavigableString string
  | Tag string "string list" "(string \<times> string) list" "node list"

record env =
  urljoin :: "string \<Rightarrow> string \<Rightarrow> string"
  web :: "nat \<Rightarrow> string \<Rightarrow> node option"
  clock :: "nat \<Rightarrow> datetime"

record world =
  readings :: nat
  requests :: nat
  slept :: nat

definition datetime_now :: "env \<Rightarrow> world \<Rightarrow> datetime \<times> world" where
  "datetime_now e w = (clock e (readings w), w\<lparr>readings := Suc (readings w)\<rparr>)"

section \<open>parse_date\<close>

definition parse_date ::
  "env \<Rightarrow> string \<Rightarrow> world \<Rightarrow> (string option \<times> string option) \<times> world" where
  "parse_date e date_str w =
     (let parts = split CHR ''-'' (strip date_str) in
      if length parts \<noteq> 2 then ((None, None), w)
      else
        let date_from_str = strip (parts ! 0);
            date_to_str = strip (parts ! 1);
            from_match_full = re_search date_pattern_full date_from_str;
            to_match_full = re_search date_pattern_full date_to_str
        in case (from_match_full, to_match_full) of
             (Some fm, Some tm) \<Rightarrow>
               let from_day = sub fm 0 2; from_month = sub fm 3 2; from_year = sub fm 6 4;
                   to_day = sub tm 0 2; to_month = sub tm 3 2; to_year = sub tm 6 4;
                   valid_from = from_year @ ''-'' @ from_month @ ''-'' @ from_day;
                   valid_to = to_year @ ''-'' @ to_month @ ''-'' @ to_day
               in ((Some valid_from, Some valid_to), w)
           | _ \<Rightarrow>
               let from_match_short = re_search date_pattern_short date_from_str;
                   to_match_short = re_search date_pattern_short date_to_str
               in case (from_match_short, to_match_short) of
                    (Some fm, Some tm) \<Rightarrow>
                      let from_day = sub fm 0 2; from_month = sub fm 3 2;
                          to_day = sub tm 0 2; to_month = sub tm 3 2;
                          (now, w') = datetime_now e w;
                          current_year = str (year now);
                          year_match = re_search year_pattern date_str;
                          yr = (case year_match of Some ym \<Rightarrow> sub ym 0 4
                                | None \<Rightarrow> current_year);
                          valid_from = yr @ ''-'' @ from_month @ ''-'' @ from_day;
                          valid_to = yr @ ''-'' @ to_month @ ''-'' @ to_day
                      in ((Some valid_from, Some valid_to), w')
                  | _ \<Rightarrow> ((None, None), w))"

section \<open>Markup queries\<close>

text \<open>
  A parsed document is a tree. A tag carries its name, the tokens of its \<open>class\<close>
  attribute (the markup library keeps that attribute as a list), its other attributes and
  its children. \<open>find\<close> and \<open>find_all\<close> search the descendants of a node in document
  order; a class query fits a tag when it equals one of the class tokens or the tokens
  joined by single spaces.
\<close>

fun descendants :: "node \<Rightarrow> node list" where
  "descendants (NavigableString s) = []"
| "descendants (Tag n cl at ch) = concat (map (\<lambda>c. c # descendants c) ch)"

fun get_text :: "node \<Rightarrow> string" where
  \<comment> \<open>the \<open>.text\<close> of an element: all its strings, concatenated\<close>
  "get_text (NavigableString s) = s"
| "get_text (Tag n cl at ch) = concat (map get_text ch)"

fun join :: "string \<Rightarrow> string list \<Rightarrow> string" where
  "join sep [] = []"
| "join sep [x] = x"
| "join sep (x # y # ys) = x @ sep @ join sep (y # ys)"

fun matches :: "string \<Rightarrow> string option \<Rightarrow> node \<Rightarrow> bool" where
  "matches nm cls (NavigableString s) = False"
| "matches nm None (Tag n cl at ch) = (n = nm)"
| "matches nm (Some c) (Tag n cl at ch) = (n = nm \<and> (c \<in> set cl \<or> join '' '' cl = c))"

definition find_all :: "string \<Rightarrow> string option \<Rightarrow> node \<Rightarrow> node list" where
  "find_all nm cls root = filter (matches nm cls) (descendants root)"

definition find :: "string \<Rightarrow> string option \<Rightarrow> node \<Rightarrow> node option" where
  "find nm cls root = (case find_all nm cls root of [] \<Rightarrow> None | x # _ \<Rightarrow> Some x)"

fun get :: "node \<Rightarrow> string \<Rightarrow> string option" where
  "get (NavigableString s) k = None"
| "get (Tag n cl at ch) k = map_of at k"

fun truthy :: "string option \<Rightarrow> bool" where
  \<comment> \<open>Python's truth value of a text or \<open>None\<close>\<close>
  "truthy None = False"
| "truthy (Some s) = (s \<noteq> [])"

section \<open>The scraper\<close>

text \<open>
  The methods of the scraper, in the order of the source. An element of the markup library
  is always true as a condition, so \<open>if not element\<close> tests for \<open>None\<close>; a text is
  true when it is not empty. Both \<open>parse_date\<close> and \<open>extract_brochure_data\<close> run inside
  a handler that turns any exception into the absent result; on the values modelled here
  no operation of their bodies raises, \<open>urljoin\<close> being taken to return, so the handler
  has no branch of its own. A method that reads the clock or requests a page takes the
  world and returns the new one.
\<close>

definition BASE_URL :: string where
  "BASE_URL = ''https://www.prospektmaschine.de''"

definition HYPERMARKETS_PATH :: string where
  "HYPERMARKETS_PATH = ''/hypermarkte/''"

record brochure =
  title :: string
  thumbnail :: string
  shop_name :: string
  valid_from :: string
  valid_to :: string
  parsed_time :: string

record hypermarket =
  url :: "string option"
  name :: string

definition zfill :: "nat \<Rightarrow> string \<Rightarrow> string" where
  "zfill n s = replicate (n - length s) CHR ''0'' @ s"

definition strftime :: "datetime \<Rightarrow> string" where
  \<comment> \<open>\<open>strftime("%Y-%m-%d %H:%M:%S")\<close>: the year as the C library prints it, without
      padding, the other fields padded to two digits\<close>
  "strftime d =
     str (year d) @ ''-'' @ zfill 2 (str (month d)) @ ''-'' @ zfill 2 (str (day d))
     @ '' '' @ zfill 2 (str (hour d)) @ '':'' @ zfill 2 (str (minute d)) @ '':''
     @ zfill 2 (str (second d))"

definition get_page_content :: "env \<Rightarrow> string \<Rightarrow> world \<Rightarrow> node option \<times> world" where
  \<comment> \<open>the parsed page, or \<open>None\<close> when the request raises \<open>RequestException\<close>\<close>
  "get_page_content e u w = (web e (requests w) u, w\<lparr>requests := Suc (requests w)\<rparr>)"

definition time_sleep :: "nat \<Rightarrow> world \<Rightarrow> world" where
  "time_sleep k w = w\<lparr>slept := slept w + k\<rparr>"

definition extract_brochure_data ::
  "env \<Rightarrow> node \<Rightarrow> string \<Rightarrow> world \<Rightarrow> brochure option \<times> world" where
  "extract_brochure_data e brochure shop w =
     (if find ''div'' (Some ''grid-item-old'') brochure \<noteq> None then (None, w)
      else case find ''strong'' None brochure of
        None \<Rightarrow> (None, w)
      | Some title_element \<Rightarrow>
          let ttl = strip (get_text title_element);
              found =
                (case find ''img'' (Some ''lazyloadBrochure'') brochure of
                   Some img_element \<Rightarrow>
                     if truthy (get img_element ''data-src'') then get img_element ''data-src''
                     else (case find ''img'' None brochure of
                             None \<Rightarrow> None
                           | Some img \<Rightarrow>
                               let t = (if truthy (get img ''src'') then get img ''src''
                                        else get img ''data-src'')
                               in if truthy t then t else None)
                 | None \<Rightarrow>
                     (case find ''img'' None brochure of
                        None \<Rightarrow> None
                      | Some img \<Rightarrow>
                          let t = (if truthy (get img ''src'') then get img ''src''
                                   else get img ''data-src'')
                          in if truthy t then t else None))
          in case found of
               None \<Rightarrow> (None, w)
             | Some thumb \<Rightarrow>
                 let thumb' =
                       (if \<not> (startswith thumb ''http://'' \<or> startswith thumb ''https://'')
                        then urljoin e BASE_URL thumb else thumb);
                     date_element =
                       (case find ''small'' (Some ''visible-sm'') brochure of
                          Some d \<Rightarrow> Some d
                        | None \<Rightarrow> find ''small'' (Some ''hidden-sm'') brochure)
                 in case date_element of
                      None \<Rightarrow> (None, w)
                    | Some de \<Rightarrow>
                        (case parse_date e (strip (get_text de)) w of
                           ((Some vf, Some vt), w1) \<Rightarrow>
                             if \<not> truthy (Some vf) \<or> \<not> truthy (Some vt) then (None, w1)
                             else
                               let (now, w2) = datetime_now e w1
                               in (Some \<lparr>title = ttl, thumbnail = thumb', shop_name = shop,
                                         valid_from = vf, valid_to = vt,
                                         parsed_time = strftime now\<rparr>, w2)
                         | (_, w1) \<Rightarrow> (None, w1)))"

definition get_hypermarket_links :: "env \<Rightarrow> world \<Rightarrow> hypermarket list \<times> world" where
  "get_hypermarket_links e w =
     (let (soup, w1) = get_page_content e (urljoin e BASE_URL HYPERMARKETS_PATH) w
      in case soup of
           None \<Rightarrow> ([], w1)
         | Some sp \<Rightarrow>
             (case find ''ul'' (Some ''list-unstyled categories'') sp of
                None \<Rightarrow> ([], w1)
              | Some categories \<Rightarrow>
                  (map (\<lambda>link. \<lparr>url = get link ''href'', name = strip (get_text link)\<rparr>)
                       (find_all ''a'' None categories), w1)))"

fun extract_loop ::
  "env \<Rightarrow> node list \<Rightarrow> string \<Rightarrow> brochure list \<Rightarrow> world \<Rightarrow> brochure list \<times> world" where
  \<comment> \<open>the \<open>for brochure in brochure_elements\<close> loop of \<open>get_brochures_for_shop\<close>\<close>
  "extract_loop e [] shop brochures w = (brochures, w)"
| "extract_loop e (b # bs) shop brochures w =
     (case extract_brochure_data e b shop w of
        (Some brochure_data, w') \<Rightarrow> extract_loop e bs shop (brochures @ [brochure_data]) w'
      | (None, w') \<Rightarrow> extract_loop e bs shop brochures w')"

definition shop_full_url :: "env \<Rightarrow> string option \<Rightarrow> string" where
  \<comment> \<open>\<open>urljoin(BASE_URL, shop_url)\<close>; for a link without \<open>href\<close> the url is \<open>None\<close> and
      \<open>urljoin\<close> returns the base\<close>
  "shop_full_url e shop_url =
     (case shop_url of None \<Rightarrow> BASE_URL | Some u \<Rightarrow> urljoin e BASE_URL u)"

definition get_brochures_for_shop ::
  "env \<Rightarrow> string option \<Rightarrow> string \<Rightarrow> world \<Rightarrow> brochure list \<times> world" where
  "get_brochures_for_shop e shop_url shop w =
     (let full_url = shop_full_url e shop_url;
          (soup, w1) = get_page_content e full_url w
      in case soup of
           None \<Rightarrow> ([], w1)
         | Some sp \<Rightarrow> extract_loop e (find_all ''div'' (Some ''brochure-thumb'') sp) shop [] w1)"

fun shops_loop ::
  "env \<Rightarrow> nat \<Rightarrow> nat \<Rightarrow> hypermarket list \<Rightarrow> brochure list \<Rightarrow> world
     \<Rightarrow> brochure list \<times> world" where
  \<comment> \<open>the \<open>for i, hypermarket in enumerate(hypermarkets)\<close> loop, \<open>n\<close> the length of the whole
      list and \<open>i\<close> the index of the next shop\<close>
  "shops_loop e n i [] all_brochures w = (all_brochures, w)"
| "shops_loop e n i (h # hs) all_brochures w =
     (let (brochures, w1) = get_brochures_for_shop e (url h) (name h) w;
          w2 = (if int i < int n - 1 then time_sleep 1 w1 else w1)
      in shops_loop e n (Suc i) hs (all_brochures @ brochures) w2)"

definition scrape_all_hypermarkets :: "env \<Rightarrow> world \<Rightarrow> brochure list \<times> world" where
  "scrape_all_hypermarkets e w =
     (let (hypermarkets, w1) = get_hypermarket_links e w
      in shops_loop e (length hypermarkets) 0 hypermarkets [] w1)"

section \<open>The words of the specification\<close>

text \<open>
  The properties below speak of dates found in a text. These predicates say it by position,
  independently of the matcher: a full date, a short date or four digits stand at position
  \<open>i\<close> of a text; \<open>occurs\<close> says that some position fits and \<open>leftmost\<close> that
  \<open>i\<close> is the first one that does.
\<close>

definition full_date_at :: "string \<Rightarrow> nat \<Rightarrow> bool" where
  "full_date_at t i \<longleftrightarrow>
     i + 10 \<le> length t \<and> isdigit (t ! i) \<and> isdigit (t ! (i + 1)) \<and> t ! (i + 2) = CHR ''.'' \<and>
     isdigit (t ! (i + 3)) \<and> isdigit (t ! (i + 4)) \<and> t ! (i + 5) = CHR ''.'' \<and>
     isdigit (t ! (i + 6)) \<and> isdigit (t ! (i + 7)) \<and> isdigit (t ! (i + 8)) \<and>
     isdigit (t ! (i + 9))"

definition short_date_at :: "string \<Rightarrow> nat \<Rightarrow> bool" where
  "short_date_at t i \<longleftrightarrow>
     i + 6 \<le> length t \<and> isdigit (t ! i) \<and> isdigit (t ! (i + 1)) \<and> t ! (i + 2) = CHR ''.'' \<and>
     isdigit (t ! (i + 3)) \<and> isdigit (t ! (i + 4)) \<and> t ! (i + 5) = CHR ''.''"

definition four_digits_at :: "string \<Rightarrow> nat \<Rightarrow> bool" where
  "four_digits_at t i \<longleftrightarrow>
     i + 4 \<le> length t \<and> isdigit (t ! i) \<and> isdigit (t ! (i + 1)) \<and> isdigit (t ! (i + 2)) \<and>
     isdigit (t ! (i + 3))"

definition occurs :: "(string \<Rightarrow> nat \<Rightarrow> bool) \<Rightarrow> string \<Rightarrow> bool" where
  "occurs P t = list_ex (P t) [0..<Suc (length t)]"

definition leftmost :: "(string \<Rightarrow> nat \<Rightarrow> bool) \<Rightarrow> string \<Rightarrow> nat \<Rightarrow> bool" where
  "leftmost P t i \<longleftrightarrow> P t i \<and> \<not> list_ex (P t) [0..<i]"

text \<open>
  A standalone four-digit number is a maximal run of digits of length four.
\<close>

fun digit_runs :: "string \<Rightarrow> string list" where
  "digit_runs [] = []"
| "digit_runs (c # cs) =
     (if isdigit c then
        (case cs of
           [] \<Rightarrow> [[c]]
         | d # _ \<Rightarrow>
             if isdigit d then (case digit_runs cs of [] \<Rightarrow> [[c]] | r # rs \<Rightarrow> (c # r) # rs)
             else [c] # digit_runs cs)
      else digit_runs cs)"

definition standalone_four_digit_numbers :: "string \<Rightarrow> string list" where
  "standalone_four_digit_numbers t = filter (\<lambda>r. length r = 4) (digit_runs t)"

text \<open>
  A date text has the shape YYYY-MM-DD when it is four digits, a hyphen, two digits, a
  hyphen and two digits. It is a well-formed calendar date when, in addition, the month
  lies in 1 to 12 and the day exists in that month of that year.
\<close>

definition iso_shape :: "string \<Rightarrow> bool" where
  "iso_shape v \<longleftrightarrow>
     length v = 10 \<and> list_all isdigit (sub v 0 4) \<and> v ! 4 = CHR ''-'' \<and>
     list_all isdigit (sub v 5 2) \<and> v ! 7 = CHR ''-'' \<and> list_all isdigit (sub v 8 2)"

definition number :: "string \<Rightarrow> nat" where
  "number v = foldl (\<lambda>n c. 10 * n + (of_char c - 48)) 0 v"

definition leap_year :: "nat \<Rightarrow> bool" where
  "leap_year y \<longleftrightarrow> (y mod 4 = 0 \<and> y mod 100 \<noteq> 0) \<or> y mod 400 = 0"

definition days_in_month :: "nat \<Rightarrow> nat \<Rightarrow> nat" where
  "days_in_month y m =
     (if m = 2 then (if leap_year y then 29 else 28)
      else if m = 4 \<or> m = 6 \<or> m = 9 \<or> m = 11 then 30 else 31)"

definition calendar_date :: "string \<Rightarrow> bool" where
  "calendar_date v \<longleftrightarrow>
     iso_shape v \<and>
     (let y = number (sub v 0 4); m = number (sub v 5 2); d = number (sub v 8 2)
      in 1 \<le> y \<and> 1 \<le> m \<and> m \<le> 12 \<and> 1 \<le> d \<and> d \<le> days_in_month y m)"

text \<open>
  The thumbnail URL the extractor finds, in the words of the specification: the lazy-load
  source of the lazy-load image when it has one, otherwise the primary source of the first
  image, otherwise that image's lazy-load source.
\<close>

definition lazy_source :: "node \<Rightarrow> string option" where
  "lazy_source b =
     (case find ''img'' (Some ''lazyloadBrochure'') b of
        None \<Rightarrow> None
      | Some el \<Rightarrow> get el ''data-src'')"

definition found_url :: "node \<Rightarrow> string option" where
  "found_url b =
     (if truthy (lazy_source b) then lazy_source b
      else case find ''img'' None b of
             None \<Rightarrow> None
           | Some img \<Rightarrow>
               if truthy (get img ''src'') then get img ''src''
               else if truthy (get img ''data-src'') then get img ''data-src''
               else None)"

text \<open>
  The element holding the validity text: the first \<open>small\<close> element with the one style
  marker, otherwise the first with the alternate marker.
\<close>

definition date_element_of :: "node \<Rightarrow> node option" where
  "date_element_of b =
     (case find ''small'' (Some ''visible-sm'') b of
        Some d \<Rightarrow> Some d
      | None \<Rightarrow> find ''small'' (Some ''hidden-sm'') b)"

text \<open>
  The walkers in the words of the specification. \<open>extractions\<close> lists, in document order,
  what the extractor answers for each fragment of a page; \<open>accepted\<close> keeps the records
  among the answers; \<open>shop_runs\<close> lists, in catalog order, the record sequence of each
  shop. The world is passed along as the run passes it.
\<close>

fun extractions :: "env \<Rightarrow> node list \<Rightarrow> string \<Rightarrow> world \<Rightarrow> brochure option list" where
  "extractions e [] shop w = []"
| "extractions e (b # bs) shop w =
     (case extract_brochure_data e b shop w of (r, w') \<Rightarrow> r # extractions e bs shop w')"

definition accepted :: "brochure option list \<Rightarrow> brochure list" where
  "accepted rs = concat (map (\<lambda>r. case r of None \<Rightarrow> [] | Some d \<Rightarrow> [d]) rs)"

fun shop_runs ::
  "env \<Rightarrow> nat \<Rightarrow> nat \<Rightarrow> hypermarket list \<Rightarrow> world \<Rightarrow> brochure list list" where
  "shop_runs e n i [] w = []"
| "shop_runs e n i (h # hs) w =
     (case get_brochures_for_shop e (url h) (name h) w of
        (brochures, w1) \<Rightarrow>
          brochures # shop_runs e n (Suc i) hs
                        (if int i < int n - 1 then time_sleep 1 w1 else w1))"

section \<open>Example inputs\<close>

definition example_env :: env where
  "example_env =
     \<lparr>urljoin = (\<lambda>b u. b @ u), web = (\<lambda>k u. None),
      clock = (\<lambda>k. \<lparr>year = 2026, month = 11, day = 3, hour = 1, minute = 2, second = 3\<rparr>)\<rparr>"

definition example_world :: world where
  "example_world = \<lparr>readings = 0, requests = 0, slept = 0\<rparr>"

definition example_env_1999 :: env where
  "example_env_1999 =
     \<lparr>urljoin = (\<lambda>b u. b @ u), web = (\<lambda>k u. None),
      clock = (\<lambda>k. \<lparr>year = 1999, month = 12, day = 31, hour = 23, minute = 59, second = 59\<rparr>)\<rparr>"

definition example_fragment :: "string \<Rightarrow> string \<Rightarrow> string \<Rightarrow> node" where
  "example_fragment t src d =
     Tag ''div'' [''brochure-thumb''] []
       [Tag ''strong'' [] [] [NavigableString t],
        Tag ''img'' [] [(''src'', src)] [],
        Tag ''small'' [''hidden-sm''] [] [NavigableString d]]"

definition example_fragment_lazy :: node where
  "example_fragment_lazy =
     Tag ''div'' [''brochure-thumb''] []
       [Tag ''a'' [] [(''href'', ''/lidl/prospekt-1/'')]
          [Tag ''img'' [''lazyloadBrochure'', ''img-responsive'']
             [(''src'', ''/static/placeholder.gif''),
              (''data-src'', ''https://cdn.example.org/lidl-1.jpg'')] [],
           Tag ''strong'' [] [] [NavigableString '' Lidl Prospekt '']],
        Tag ''small'' [''visible-sm''] [] [NavigableString ''01.03.2024 - 15.03.2024''],
        Tag ''small'' [''hidden-sm''] [] [NavigableString ''Montag 01.03.2024 - 15.03.2024'']]"

definition example_shop_page :: "string list \<Rightarrow> node" where
  "example_shop_page titles =
     Tag ''[document]'' [] []
       [Tag ''div'' [''grid''] []
          (Tag ''div'' [''brochure-thumb''] []
             [Tag ''div'' [''grid-item-old''] [] [],
              Tag ''strong'' [] [] [NavigableString ''old''],
              Tag ''img'' [] [(''src'', ''/img/old.jpg'')] [],
              Tag ''small'' [''hidden-sm''] [] [NavigableString ''01.01.2024 - 15.01.2024'']]
           # map (\<lambda>t. example_fragment t ''/img/a.jpg'' ''01.03.2024 - 15.03.2024'') titles)]"

definition example_catalog :: node where
  "example_catalog =
     Tag ''[document]'' [] []
       [Tag ''ul'' [''list-unstyled'', ''categories''] []
          [Tag ''li'' [] [] [Tag ''a'' [] [(''href'', ''/a/'')] [NavigableString '' A '']],
           Tag ''li'' [] [] [Tag ''a'' [] [(''href'', ''/b/'')] [NavigableString ''B'']],
           Tag ''li'' [] [] [Tag ''a'' [] [(''href'', ''/c/'')] [NavigableString ''C'']]]]"

definition example_web :: "bool \<Rightarrow> nat \<Rightarrow> string \<Rightarrow> node option" where
  "example_web b_fails k u =
     (if u = ''https://www.prospektmaschine.de/hypermarkte/'' then Some example_catalog
      else if u = ''https://www.prospektmaschine.de/a/''
        then Some (example_shop_page [''a1'', ''a2''])
      else if u = ''https://www.prospektmaschine.de/b/''
        then (if b_fails then None else Some (example_shop_page [''b1'']))
      else if u = ''https://www.prospektmaschine.de/c/''
        then Some (example_shop_page [''c1'', ''c2'', ''c3''])
      else None)"

definition example_site :: "bool \<Rightarrow> env" where
  "example_site b_fails = example_env\<lparr>web := example_web b_fails\<rparr>"

definition example_shops :: "hypermarket list" where
  "example_shops =
     [\<lparr>url = Some ''/a/'', name = ''A''\<rparr>, \<lparr>url = Some ''/b/'', name = ''B''\<rparr>,
      \<lparr>url = Some ''/c/'', name = ''C''\<rparr>]"

definition example_record :: brochure where
  "example_record =
     \<lparr>title = ''Angebote'', thumbnail = ''https://www.prospektmaschine.de/img/a.jpg'',
      shop_name = ''Lidl'', valid_from = ''2024-02-31'', valid_to = ''2024-99-99'',
      parsed_time = ''2026-11-03 01:02:03''\<rparr>"

definition example_record_short :: brochure where
  "example_record_short =
     \<lparr>title = ''Angebote'', thumbnail = ''https://www.prospektmaschine.de/img/a.jpg'',
      shop_name = ''Lidl'', valid_from = ''2026-03-01'', valid_to = ''2026-03-15'',
      parsed_time = ''2026-11-03 01:02:03''\<rparr>"

section \<open>Lemmas on the text operations and the matcher\<close>

lemma match_at_drop:
  "match_at (a # as) (drop i t) \<longleftrightarrow>
     i < length t \<and> atom_matches a (t ! i) \<and> match_at as (drop (Suc i) t)"
proof (cases "i < length t")
  case True
  then have "drop i t = t ! i # drop (Suc i) t" by (simp add: Cons_nth_drop_Suc)
  then show ?thesis using True by simp
next
  case False
  then show ?thesis by simp
qed

lemma match_full_iff: "match_at date_pattern_full (drop i t) \<longleftrightarrow> full_date_at t i"
  unfolding date_pattern_full_def full_date_at_def
  by (simp add: match_at_drop numeral_eq_Suc) (auto simp: Suc_le_eq)

lemma match_short_iff: "match_at date_pattern_short (drop i t) \<longleftrightarrow> short_date_at t i"
  unfolding date_pattern_short_def short_date_at_def
  by (simp add: match_at_drop numeral_eq_Suc) (auto simp: Suc_le_eq)

lemma match_year_iff: "match_at year_pattern (drop i t) \<longleftrightarrow> four_digits_at t i"
  unfolding year_pattern_def four_digits_at_def
  by (simp add: match_at_drop numeral_eq_Suc) (auto simp: Suc_le_eq)

lemma leftmost_iff: "leftmost P t i \<longleftrightarrow> P t i \<and> (\<forall>j<i. \<not> P t j)"
  by (auto simp: leftmost_def list_ex_iff)

lemma occurs_iff: "occurs P t \<longleftrightarrow> (\<exists>i\<le>length t. P t i)"
proof -
  have "set [0..<Suc (length t)] = {i. i \<le> length t}" by auto
  then show ?thesis by (simp add: occurs_def list_ex_iff)
qed

lemma leftmost_exists:
  assumes "P t p"
  shows "\<exists>i\<le>p. leftmost P t i"
proof -
  let ?i = "LEAST i. P t i"
  have "P t ?i" using assms by (rule LeastI)
  moreover have "\<forall>j<?i. \<not> P t j" using not_less_Least by blast
  moreover have "?i \<le> p" using assms by (rule Least_le)
  ultimately show ?thesis unfolding leftmost_iff by blast
qed

lemma leftmost_unique: "leftmost P t i \<Longrightarrow> leftmost P t j \<Longrightarrow> i = j"
  unfolding leftmost_iff by (meson nat_neq_iff)

lemma split_not_Nil: "split c t \<noteq> []"
  by (induction t) (auto split: list.splits)

lemma split_one: "split c t = [b] \<Longrightarrow> t = b"
proof (induction t arbitrary: b)
  case Nil
  then show ?case by simp
next
  case (Cons y ys)
  then show ?case by (auto simp: split_not_Nil split: if_splits list.splits)
qed

lemma split_two:
  assumes "split c t = [a, b]"
  shows "t = a @ c # b"
  using assms
proof (induction t arbitrary: a)
  case Nil
  then show ?case by simp
next
  case (Cons x xs)
  show ?case
  proof (cases "x = c")
    case True
    with Cons.prems have a: "a = []" and r: "split c xs = [b]" by auto
    have "xs = b" using r by (rule split_one)
    with a True show ?thesis by simp
  next
    case False
    with Cons.prems obtain a' where "split c xs = [a', b]" "a = x # a'"
      by (auto split: list.splits)
    with Cons.IH show ?thesis by simp
  qed
qed

lemma strip_decomp: "\<exists>pre post. t = pre @ strip t @ post"
proof -
  let ?u = "dropWhile isspace t"
  have "t = takeWhile isspace t @ ?u" by simp
  moreover have "?u = strip t @ rev (takeWhile isspace (rev ?u))"
  proof -
    have "rev (dropWhile isspace (rev ?u)) @ rev (takeWhile isspace (rev ?u))
          = rev (takeWhile isspace (rev ?u) @ dropWhile isspace (rev ?u))"
      by (simp only: rev_append)
    also have "\<dots> = ?u" by simp
    finally show ?thesis by (simp only: strip_def)
  qed
  ultimately have "t = takeWhile isspace t @ strip t @ rev (takeWhile isspace (rev ?u))"
    by simp
  then show ?thesis by blast
qed

lemma four_digits_embed:
  assumes "four_digits_at u p"
  shows "four_digits_at (pre @ u @ post) (length pre + p)"
  using assms unfolding four_digits_at_def by (simp add: nth_append)

lemma full_has_year: "full_date_at t p \<Longrightarrow> four_digits_at t (p + 6)"
  unfolding full_date_at_def four_digits_at_def by (simp add: ac_simps)

lemma full_has_short: "full_date_at t p \<Longrightarrow> short_date_at t p"
  unfolding full_date_at_def short_date_at_def by simp

lemma re_search_leftmost:
  assumes "match_at p (drop i t)" and "\<forall>j<i. \<not> match_at p (drop j t)"
  shows "re_search p t = Some (drop i t)"
  using assms
proof (induction t arbitrary: i)
  case Nil
  then show ?case by simp
next
  case (Cons c cs)
  show ?case
  proof (cases i)
    case 0
    with Cons.prems show ?thesis by simp
  next
    case (Suc k)
    from Cons.prems(2) Suc have no0: "\<not> match_at p (c # cs)" by force
    have mk: "match_at p (drop k cs)" using Cons.prems(1) Suc by simp
    have "\<forall>j<k. \<not> match_at p (drop j cs)"
    proof (intro allI impI)
      fix j assume "j < k"
      then have "Suc j < i" using Suc by simp
      with Cons.prems(2) have "\<not> match_at p (drop (Suc j) (c # cs))" by blast
      then show "\<not> match_at p (drop j cs)" by simp
    qed
    with Cons.IH mk have "re_search p cs = Some (drop k cs)" by blast
    with no0 Suc show ?thesis by simp
  qed
qed

lemma re_search_None:
  "re_search p t = None \<longleftrightarrow> (\<forall>i\<le>length t. \<not> match_at p (drop i t))"
proof (induction t)
  case Nil
  then show ?case by simp
next
  case (Cons c cs)
  have "(\<forall>i\<le>length (c # cs). \<not> match_at p (drop i (c # cs))) \<longleftrightarrow>
        (\<not> match_at p (c # cs) \<and> (\<forall>i\<le>length cs. \<not> match_at p (drop i cs)))"
    (is "?L \<longleftrightarrow> ?R")
  proof
    assume l: ?L
    then have "\<not> match_at p (drop 0 (c # cs))" by blast
    moreover have "\<forall>i\<le>length cs. \<not> match_at p (drop i cs)"
    proof (intro allI impI)
      fix i assume "i \<le> length cs"
      then have "Suc i \<le> length (c # cs)" by simp
      with l have "\<not> match_at p (drop (Suc i) (c # cs))" by blast
      then show "\<not> match_at p (drop i cs)" by simp
    qed
    ultimately show ?R by simp
  next
    assume r: ?R
    show ?L
    proof (intro allI impI)
      fix i assume "i \<le> length (c # cs)"
      then show "\<not> match_at p (drop i (c # cs))" using r by (cases i) auto
    qed
  qed
  with Cons.IH show ?case by simp
qed

lemma search_full_leftmost:
  "leftmost full_date_at t i \<Longrightarrow> re_search date_pattern_full t = Some (drop i t)"
  by (rule re_search_leftmost) (simp_all add: leftmost_iff match_full_iff)

lemma search_short_leftmost:
  "leftmost short_date_at t i \<Longrightarrow> re_search date_pattern_short t = Some (drop i t)"
  by (rule re_search_leftmost) (simp_all add: leftmost_iff match_short_iff)

lemma search_year_leftmost:
  "leftmost four_digits_at t i \<Longrightarrow> re_search year_pattern t = Some (drop i t)"
  by (rule re_search_leftmost) (simp_all add: leftmost_iff match_year_iff)

lemma search_full_None: "re_search date_pattern_full t = None \<longleftrightarrow> \<not> occurs full_date_at t"
  by (simp add: re_search_None occurs_iff match_full_iff)

lemma search_short_None: "re_search date_pattern_short t = None \<longleftrightarrow> \<not> occurs short_date_at t"
  by (simp add: re_search_None occurs_iff match_short_iff)

lemma search_year_None: "re_search year_pattern t = None \<longleftrightarrow> \<not> occurs four_digits_at t"
  by (simp add: re_search_None occurs_iff match_year_iff)

lemma sub_drop: "sub (drop i t) j n = sub t (i + j) n"
  by (simp add: sub_def add.commute)

section \<open>Lemmas on parse_date\<close>

lemma parse_date_not_two:
  "length (split CHR ''-'' (strip s)) \<noteq> 2 \<Longrightarrow> parse_date e s w = ((None, None), w)"
  by (simp add: parse_date_def Let_def)

lemma parse_date_two_full:
  assumes "split CHR ''-'' (strip s) = [a, b]"
    and "re_search date_pattern_full (strip a) = Some fm"
    and "re_search date_pattern_full (strip b) = Some tm"
  shows "parse_date e s w =
           ((Some (sub fm 6 4 @ ''-'' @ sub fm 3 2 @ ''-'' @ sub fm 0 2),
             Some (sub tm 6 4 @ ''-'' @ sub tm 3 2 @ ''-'' @ sub tm 0 2)), w)"
  using assms by (simp add: parse_date_def Let_def)

lemma parse_date_two_short:
  assumes "split CHR ''-'' (strip s) = [a, b]"
    and "re_search date_pattern_full (strip a) = None
         \<or> re_search date_pattern_full (strip b) = None"
    and "re_search date_pattern_short (strip a) = Some fm"
    and "re_search date_pattern_short (strip b) = Some tm"
  shows "parse_date e s w =
           ((Some ((case re_search year_pattern s of Some ym \<Rightarrow> sub ym 0 4
                    | None \<Rightarrow> str (year (clock e (readings w))))
                   @ ''-'' @ sub fm 3 2 @ ''-'' @ sub fm 0 2),
             Some ((case re_search year_pattern s of Some ym \<Rightarrow> sub ym 0 4
                    | None \<Rightarrow> str (year (clock e (readings w))))
                   @ ''-'' @ sub tm 3 2 @ ''-'' @ sub tm 0 2)),
            w\<lparr>readings := Suc (readings w)\<rparr>)"
  using assms
  by (auto simp: parse_date_def Let_def datetime_now_def split: option.splits)

lemma parse_date_two_none:
  assumes "split CHR ''-'' (strip s) = [a, b]"
    and "re_search date_pattern_full (strip a) = None
         \<or> re_search date_pattern_full (strip b) = None"
    and "re_search date_pattern_short (strip a) = None
         \<or> re_search date_pattern_short (strip b) = None"
  shows "parse_date e s w = ((None, None), w)"
  using assms
  by (auto simp: parse_date_def Let_def split: option.splits)

lemma parse_date_both_or_none:
  "fst (parse_date e s w) = (None, None) \<or> (\<exists>f t. fst (parse_date e s w) = (Some f, Some t))"
  by (auto simp: parse_date_def Let_def datetime_now_def split: option.splits)

lemma digits_of_segment:
  assumes sp: "split CHR ''-'' (strip s) = [a, b]"
    and fd: "four_digits_at (strip a) p \<or> four_digits_at (strip b) p"
  shows "\<exists>j. four_digits_at s j"
proof -
  from sp have st: "strip s = a @ CHR ''-'' # b" by (rule split_two)
  obtain pre post where s: "s = pre @ strip s @ post" using strip_decomp by blast
  obtain pa qa where a: "a = pa @ strip a @ qa" using strip_decomp by blast
  obtain pb qb where b: "b = pb @ strip b @ qb" using strip_decomp by blast
  from fd show ?thesis
  proof
    assume "four_digits_at (strip a) p"
    then have "four_digits_at ((pre @ pa) @ strip a @ (qa @ CHR ''-'' # b @ post))
                 (length (pre @ pa) + p)"
      by (rule four_digits_embed)
    moreover have "(pre @ pa) @ strip a @ (qa @ CHR ''-'' # b @ post) = s"
      using s st a by (metis append.assoc append_Cons)
    ultimately show ?thesis by auto
  next
    assume "four_digits_at (strip b) p"
    then have "four_digits_at ((pre @ a @ CHR ''-'' # pb) @ strip b @ (qb @ post))
                 (length (pre @ a @ CHR ''-'' # pb) + p)"
      by (rule four_digits_embed)
    moreover have "(pre @ a @ CHR ''-'' # pb) @ strip b @ (qb @ post) = s"
      using s st b by (metis append.assoc append_Cons)
    ultimately show ?thesis by auto
  qed
qed

section \<open>Lemmas on the shape of the dates\<close>

lemma re_search_Some:
  assumes "re_search p t = Some m"
  shows "\<exists>i\<le>length t. m = drop i t \<and> match_at p m \<and> (\<forall>j<i. \<not> match_at p (drop j t))"
  using assms
proof (induction t)
  case Nil
  then show ?case by (auto split: if_splits)
next
  case (Cons c cs)
  show ?case
  proof (cases "match_at p (c # cs)")
    case True
    with Cons.prems have "m = drop 0 (c # cs)" by simp
    with True show ?thesis by (intro exI[of _ 0]) simp
  next
    case False
    with Cons.prems have "re_search p cs = Some m" by simp
    with Cons.IH obtain k where k: "k \<le> length cs" "m = drop k cs" "match_at p m"
      "\<forall>j<k. \<not> match_at p (drop j cs)" by blast
    have "\<forall>j<Suc k. \<not> match_at p (drop j (c # cs))"
    proof (intro allI impI)
      fix j assume "j < Suc k"
      then show "\<not> match_at p (drop j (c # cs))" using False k(4) by (cases j) auto
    qed
    with k show ?thesis by (intro exI[of _ "Suc k"]) simp
  qed
qed

lemma search_full_shape:
  assumes "re_search date_pattern_full t = Some m"
  shows "full_date_at m 0"
proof -
  from re_search_Some [OF assms] have "match_at date_pattern_full (drop 0 m)" by auto
  then show ?thesis by (simp only: match_full_iff)
qed

lemma search_short_shape:
  assumes "re_search date_pattern_short t = Some m"
  shows "short_date_at m 0"
proof -
  from re_search_Some [OF assms] have "match_at date_pattern_short (drop 0 m)" by auto
  then show ?thesis by (simp only: match_short_iff)
qed

lemma search_year_shape:
  assumes "re_search year_pattern t = Some m"
  shows "four_digits_at m 0"
proof -
  from re_search_Some [OF assms] have "match_at year_pattern (drop 0 m)" by auto
  then show ?thesis by (simp only: match_year_iff)
qed

lemma iso_shape_build:
  assumes "length y = 4" "length m = 2" "length d = 2"
    and "list_all isdigit y" "list_all isdigit m" "list_all isdigit d"
  shows "iso_shape (y @ ''-'' @ m @ ''-'' @ d)"
  using assms by (simp add: iso_shape_def sub_def nth_append)

lemma take_two: "2 \<le> length u \<Longrightarrow> take 2 u = [u ! 0, u ! 1]"
  by (cases u; cases "tl u") auto

lemma sub_two: "i + 2 \<le> length t \<Longrightarrow> sub t i 2 = [t ! i, t ! (i + 1)]"
  by (simp add: sub_def take_two)

lemma take_four: "4 \<le> length u \<Longrightarrow> take 4 u = [u ! 0, u ! 1, u ! 2, u ! 3]"
  by (cases u; cases "tl u"; cases "tl (tl u)"; cases "tl (tl (tl u))")
     (auto simp: numeral_eq_Suc)

lemma sub_four:
  "i + 4 \<le> length t \<Longrightarrow> sub t i 4 = [t ! i, t ! (i + 1), t ! (i + 2), t ! (i + 3)]"
  by (simp add: sub_def take_four)

lemma full_groups:
  assumes "full_date_at m 0"
  shows "length (sub m 6 4) = 4" "length (sub m 3 2) = 2" "length (sub m 0 2) = 2"
    "list_all isdigit (sub m 6 4)" "list_all isdigit (sub m 3 2)" "list_all isdigit (sub m 0 2)"
  using assms by (simp_all add: full_date_at_def sub_two sub_four)

lemma short_groups:
  assumes "short_date_at m 0"
  shows "length (sub m 3 2) = 2" "length (sub m 0 2) = 2"
    "list_all isdigit (sub m 3 2)" "list_all isdigit (sub m 0 2)"
  using assms by (simp_all add: short_date_at_def sub_two)

lemma year_group:
  assumes "four_digits_at m 0"
  shows "length (sub m 0 4) = 4" "list_all isdigit (sub m 0 4)"
  using assms by (simp_all add: four_digits_at_def sub_four)

lemma isdigit_char_of: "(k::nat) < 10 \<Longrightarrow> isdigit (char_of (48 + k))"
  by (simp add: isdigit_def Let_def)

lemma str_digit: "n < 10 \<Longrightarrow> str n = [char_of (48 + n)]"
  by (simp add: str.simps)

lemma str_step: "10 \<le> n \<Longrightarrow> str n = str (n div 10) @ [char_of (48 + n mod 10)]"
  by (subst str.simps) simp

lemma str_four:
  assumes "1000 \<le> n" and "n \<le> 9999"
  shows "length (str n) = 4 \<and> list_all isdigit (str n)"
proof -
  have a: "10 \<le> n" "10 \<le> n div 10" "10 \<le> n div 10 div 10" "n div 10 div 10 div 10 < 10"
    using assms by auto
  have "str n = [char_of (48 + n div 10 div 10 div 10), char_of (48 + n div 10 div 10 mod 10),
                 char_of (48 + n div 10 mod 10), char_of (48 + n mod 10)]"
    using a by (simp add: str_step str_digit)
  then show ?thesis using a(4) by (simp add: isdigit_char_of)
qed


lemma parse_date_shape:
  assumes "parse_date e s w = ((Some f, Some t), w')"
    and "1000 \<le> year (clock e (readings w))" and "year (clock e (readings w)) \<le> 9999"
  shows "iso_shape f \<and> iso_shape t"
proof -
  have two: "length (split CHR ''-'' (strip s)) = 2"
    using assms(1) parse_date_not_two by (metis Pair_inject option.distinct(1))
  then obtain a b where sp: "split CHR ''-'' (strip s) = [a, b]"
    by (auto simp: length_Suc_conv numeral_2_eq_2)
  show ?thesis
  proof (cases "re_search date_pattern_full (strip a) = None
                \<or> re_search date_pattern_full (strip b) = None")
    case False
    then obtain fm tm where fm: "re_search date_pattern_full (strip a) = Some fm"
      and tm: "re_search date_pattern_full (strip b) = Some tm" by auto
    from parse_date_two_full [OF sp fm tm, of e w] assms(1)
    have f: "f = sub fm 6 4 @ ''-'' @ sub fm 3 2 @ ''-'' @ sub fm 0 2"
      and t: "t = sub tm 6 4 @ ''-'' @ sub tm 3 2 @ ''-'' @ sub tm 0 2" by simp_all
    have "iso_shape f" unfolding f
      by (rule iso_shape_build) (rule full_groups [OF search_full_shape [OF fm]])+
    moreover have "iso_shape t" unfolding t
      by (rule iso_shape_build) (rule full_groups [OF search_full_shape [OF tm]])+
    ultimately show ?thesis by simp
  next
    case nf: True
    have "re_search date_pattern_short (strip a) \<noteq> None
          \<and> re_search date_pattern_short (strip b) \<noteq> None"
    proof (rule ccontr)
      assume "\<not> ?thesis"
      then have "re_search date_pattern_short (strip a) = None
                 \<or> re_search date_pattern_short (strip b) = None" by simp
      from parse_date_two_none [OF sp nf this, of e w] assms(1) show False by simp
    qed
    then obtain fm tm where fm: "re_search date_pattern_short (strip a) = Some fm"
      and tm: "re_search date_pattern_short (strip b) = Some tm" by auto
    define yr where "yr = (case re_search year_pattern s of Some ym \<Rightarrow> sub ym 0 4
                           | None \<Rightarrow> str (year (clock e (readings w))))"
    from parse_date_two_short [OF sp nf fm tm, of e w] assms(1)
    have f: "f = yr @ ''-'' @ sub fm 3 2 @ ''-'' @ sub fm 0 2"
      and t: "t = yr @ ''-'' @ sub tm 3 2 @ ''-'' @ sub tm 0 2"
      by (simp_all add: yr_def)
    have yr: "length yr = 4 \<and> list_all isdigit yr"
    proof (cases "re_search year_pattern s")
      case None
      then show ?thesis using str_four [OF assms(2) assms(3)] by (simp add: yr_def)
    next
      case (Some ym)
      then show ?thesis using year_group [OF search_year_shape [OF Some]] by (simp add: yr_def)
    qed
    have "iso_shape f" unfolding f
      using yr short_groups [OF search_short_shape [OF fm]] by (intro iso_shape_build) simp_all
    moreover have "iso_shape t" unfolding t
      using yr short_groups [OF search_short_shape [OF tm]] by (intro iso_shape_build) simp_all
    ultimately show ?thesis by simp
  qed
qed

section \<open>Lemmas on the extractor\<close>

lemma found_url_Some:
  "found_url b = Some u \<Longrightarrow> u \<noteq> []"
  unfolding found_url_def lazy_source_def
  by (auto split: if_splits option.splits)

lemma thumbnail_lookup:
  "(case find ''img'' (Some ''lazyloadBrochure'') b of
      Some img_element \<Rightarrow>
        if truthy (get img_element ''data-src'') then get img_element ''data-src''
        else (case find ''img'' None b of
                None \<Rightarrow> None
              | Some img \<Rightarrow>
                  let t = (if truthy (get img ''src'') then get img ''src''
                           else get img ''data-src'')
                  in if truthy t then t else None)
    | None \<Rightarrow>
        (case find ''img'' None b of
           None \<Rightarrow> None
         | Some img \<Rightarrow>
             let t = (if truthy (get img ''src'') then get img ''src''
                      else get img ''data-src'')
             in if truthy t then t else None)) = found_url b"
  unfolding found_url_def lazy_source_def Let_def
  by (simp split: option.splits)

lemma extract_brochure_data_steps:
  "extract_brochure_data e b shop w =
     (if find ''div'' (Some ''grid-item-old'') b \<noteq> None then (None, w)
      else case find ''strong'' None b of
        None \<Rightarrow> (None, w)
      | Some title_element \<Rightarrow>
          (case found_url b of
             None \<Rightarrow> (None, w)
           | Some thumb \<Rightarrow>
               (case date_element_of b of
                  None \<Rightarrow> (None, w)
                | Some de \<Rightarrow>
                    (case parse_date e (strip (get_text de)) w of
                       ((Some vf, Some vt), w1) \<Rightarrow>
                         if vf = [] \<or> vt = [] then (None, w1)
                         else (Some \<lparr>title = strip (get_text title_element),
                                     thumbnail =
                                       (if startswith thumb ''http://''
                                           \<or> startswith thumb ''https://'' then thumb
                                        else urljoin e BASE_URL thumb),
                                     shop_name = shop, valid_from = vf, valid_to = vt,
                                     parsed_time = strftime (clock e (readings w1))\<rparr>,
                               w1\<lparr>readings := Suc (readings w1)\<rparr>)
                     | (_, w1) \<Rightarrow> (None, w1)))))"
  unfolding extract_brochure_data_def Let_def thumbnail_lookup [unfolded Let_def]
    date_element_of_def datetime_now_def
  by (simp split: option.splits prod.splits)


lemma extract_Some:
  assumes "extract_brochure_data e b shop w = (Some r, w')"
  shows "\<exists>el u de w1.
           find ''div'' (Some ''grid-item-old'') b = None
           \<and> find ''strong'' None b = Some el
           \<and> found_url b = Some u
           \<and> date_element_of b = Some de
           \<and> parse_date e (strip (get_text de)) w = ((Some (valid_from r), Some (valid_to r)), w1)
           \<and> title r = strip (get_text el)
           \<and> thumbnail r = (if startswith u ''http://'' \<or> startswith u ''https://'' then u
                              else urljoin e BASE_URL u)
           \<and> shop_name r = shop
           \<and> parsed_time r = strftime (clock e (readings w1))
           \<and> w' = w1\<lparr>readings := Suc (readings w1)\<rparr>"
proof -
  note st = extract_brochure_data_steps [of e b shop w]
  have old: "find ''div'' (Some ''grid-item-old'') b = None"
    using assms unfolding st by (cases "find ''div'' (Some ''grid-item-old'') b") simp_all
  obtain el where el: "find ''strong'' None b = Some el"
    using assms old unfolding st by (cases "find ''strong'' None b") simp_all
  obtain u where u: "found_url b = Some u"
    using assms old el unfolding st by (cases "found_url b") simp_all
  obtain de where de: "date_element_of b = Some de"
    using assms old el u unfolding st by (cases "date_element_of b") simp_all
  obtain x y w1 where pd: "parse_date e (strip (get_text de)) w = ((x, y), w1)"
    by (metis surj_pair)
  obtain vf where vf: "x = Some vf"
    using assms old el u de pd unfolding st by (cases x) simp_all
  obtain vt where vt: "y = Some vt"
    using assms old el u de pd vf unfolding st by (cases y) simp_all
  have res: "r = \<lparr>title = strip (get_text el),
                    thumbnail = (if startswith u ''http://'' \<or> startswith u ''https://'' then u
                                 else urljoin e BASE_URL u),
                    shop_name = shop, valid_from = vf, valid_to = vt,
                    parsed_time = strftime (clock e (readings w1))\<rparr>
             \<and> w' = w1\<lparr>readings := Suc (readings w1)\<rparr>"
    using assms old el u de pd vf vt unfolding st by (auto split: if_splits)
  then have c: "valid_from r = vf" "valid_to r = vt" "title r = strip (get_text el)"
    "thumbnail r = (if startswith u ''http://'' \<or> startswith u ''https://'' then u
                    else urljoin e BASE_URL u)"
    "shop_name r = shop" "parsed_time r = strftime (clock e (readings w1))"
    "w' = w1\<lparr>readings := Suc (readings w1)\<rparr>"
    by simp_all
  have p: "parse_date e (strip (get_text de)) w = ((Some (valid_from r), Some (valid_to r)), w1)"
    using pd vf vt c(1) c(2) by simp
  show ?thesis
    using old el u de p c(3) c(4) c(5) c(6) c(7) by blast
qed

section \<open>Lemmas on the walkers\<close>

lemma accepted_simps:
  "accepted [] = []" "accepted (None # rs) = accepted rs" "accepted (Some d # rs) = d # accepted rs"
  by (simp_all add: accepted_def)

lemma extract_loop_acc:
  "fst (extract_loop e bs shop acc w) = acc @ accepted (extractions e bs shop w)"
proof (induction bs arbitrary: acc w)
  case Nil
  then show ?case by (simp add: accepted_simps)
next
  case (Cons b bs)
  obtain r w' where r: "extract_brochure_data e b shop w = (r, w')" by (metis surj_pair)
  show ?case
  proof (cases r)
    case None
    with r Cons.IH show ?thesis by (simp add: accepted_simps)
  next
    case (Some d)
    with r Cons.IH show ?thesis by (simp add: accepted_simps)
  qed
qed

lemma get_brochures_for_shop_result:
  "fst (get_brochures_for_shop e u shop w) =
     (case web e (requests w) (shop_full_url e u) of
        None \<Rightarrow> []
      | Some page \<Rightarrow>
          accepted (extractions e (find_all ''div'' (Some ''brochure-thumb'') page) shop
                      (w\<lparr>requests := Suc (requests w)\<rparr>)))"
  by (simp add: get_brochures_for_shop_def get_page_content_def Let_def extract_loop_acc
      split: option.splits)

lemma get_brochures_for_shop_failed:
  assumes "web e (requests w) (shop_full_url e u) = None"
  shows "get_brochures_for_shop e u shop w = ([], w\<lparr>requests := Suc (requests w)\<rparr>)"
  using assms by (simp add: get_brochures_for_shop_def get_page_content_def Let_def)

lemma shops_loop_acc:
  "fst (shops_loop e n i hs acc w) = acc @ concat (shop_runs e n i hs w)"
proof (induction hs arbitrary: i acc w)
  case Nil
  then show ?case by simp
next
  case (Cons h hs)
  obtain bs w1 where g: "get_brochures_for_shop e (url h) (name h) w = (bs, w1)"
    by (metis surj_pair)
  show ?case using g Cons.IH by (simp add: Let_def)
qed

lemma length_shop_runs: "length (shop_runs e n i hs w) = length hs"
proof (induction hs arbitrary: i w)
  case Nil
  then show ?case by simp
next
  case (Cons h hs)
  obtain bs w1 where g: "get_brochures_for_shop e (url h) (name h) w = (bs, w1)"
    by (metis surj_pair)
  show ?case using g Cons.IH by simp
qed

lemma shops_loop_from_empty:
  "shops_loop e n i hs acc w =
     (acc @ fst (shops_loop e n i hs [] w), snd (shops_loop e n i hs [] w))"
proof (induction hs arbitrary: i acc w)
  case Nil
  then show ?case by simp
next
  case (Cons h hs)
  obtain bs w1 where g: "get_brochures_for_shop e (url h) (name h) w = (bs, w1)"
    by (metis surj_pair)
  let ?w2 = "if int i < int n - 1 then time_sleep 1 w1 else w1"
  have a: "shops_loop e n i (h # hs) acc w = shops_loop e n (Suc i) hs (acc @ bs) ?w2"
    using g by (simp add: Let_def)
  have b: "shops_loop e n i (h # hs) [] w = shops_loop e n (Suc i) hs bs ?w2"
    using g by (simp add: Let_def)
  have c: "shops_loop e n (Suc i) hs (acc @ bs) ?w2
           = ((acc @ bs) @ fst (shops_loop e n (Suc i) hs [] ?w2),
              snd (shops_loop e n (Suc i) hs [] ?w2))"
    by (rule Cons.IH)
  have d: "shops_loop e n (Suc i) hs bs ?w2
           = (bs @ fst (shops_loop e n (Suc i) hs [] ?w2),
              snd (shops_loop e n (Suc i) hs [] ?w2))"
    by (rule Cons.IH)
  show ?case unfolding a b c d by simp
qed

lemma shops_loop_append:
  "shops_loop e n i (xs @ ys) acc w =
     (case shops_loop e n i xs acc w of (a, w') \<Rightarrow> shops_loop e n (i + length xs) ys a w')"
proof (induction xs arbitrary: i acc w)
  case Nil
  then show ?case by simp
next
  case (Cons h hs)
  obtain bs w1 where g: "get_brochures_for_shop e (url h) (name h) w = (bs, w1)"
    by (metis surj_pair)
  show ?case using g Cons.IH by (simp add: Let_def)
qed

section \<open>Lemmas on where the parsed dates come from\<close>

lemma search_full_Some:
  assumes "re_search date_pattern_full t = Some m"
  shows "\<exists>i. leftmost full_date_at t i \<and> m = drop i t"
proof -
  from re_search_Some [OF assms] obtain i where "m = drop i t"
    "match_at date_pattern_full m" "\<forall>j<i. \<not> match_at date_pattern_full (drop j t)" by blast
  then have "leftmost full_date_at t i \<and> m = drop i t"
    by (simp add: leftmost_iff match_full_iff)
  then show ?thesis by blast
qed

lemma search_short_Some:
  assumes "re_search date_pattern_short t = Some m"
  shows "\<exists>i. leftmost short_date_at t i \<and> m = drop i t"
proof -
  from re_search_Some [OF assms] obtain i where "m = drop i t"
    "match_at date_pattern_short m" "\<forall>j<i. \<not> match_at date_pattern_short (drop j t)" by blast
  then have "leftmost short_date_at t i \<and> m = drop i t"
    by (simp add: leftmost_iff match_short_iff)
  then show ?thesis by blast
qed

lemma search_year_Some:
  assumes "re_search year_pattern t = Some m"
  shows "\<exists>i. leftmost four_digits_at t i \<and> m = drop i t"
proof -
  from re_search_Some [OF assms] obtain i where "m = drop i t"
    "match_at year_pattern m" "\<forall>j<i. \<not> match_at year_pattern (drop j t)" by blast
  then have "leftmost four_digits_at t i \<and> m = drop i t"
    by (simp add: leftmost_iff match_year_iff)
  then show ?thesis by blast
qed

lemma parse_date_Some:
  assumes "parse_date e s w = ((Some f, Some t), w')"
  shows "\<exists>p q i k y1 y2.
           split CHR ''-'' (strip s) = [p, q]
           \<and> short_date_at (strip p) i \<and> short_date_at (strip q) k
           \<and> f = y1 @ ''-'' @ sub (strip p) (i + 3) 2 @ ''-'' @ sub (strip p) i 2
           \<and> t = y2 @ ''-'' @ sub (strip q) (k + 3) 2 @ ''-'' @ sub (strip q) k 2
           \<and> (leftmost full_date_at (strip p) i \<and> leftmost full_date_at (strip q) k
                \<and> y1 = sub (strip p) (i + 6) 4 \<and> y2 = sub (strip q) (k + 6) 4
              \<or> \<not> (occurs full_date_at (strip p) \<and> occurs full_date_at (strip q))
                \<and> leftmost short_date_at (strip p) i \<and> leftmost short_date_at (strip q) k
                \<and> y1 = y2
                \<and> ((\<exists>j. leftmost four_digits_at s j \<and> y1 = sub s j 4)
                    \<or> \<not> occurs four_digits_at s \<and> y1 = str (year (clock e (readings w)))))"
proof -
  have two: "length (split CHR ''-'' (strip s)) = 2"
    using assms parse_date_not_two by (metis Pair_inject option.distinct(1))
  then obtain p q where sp: "split CHR ''-'' (strip s) = [p, q]"
    by (auto simp: length_Suc_conv numeral_2_eq_2)
  show ?thesis
  proof (cases "re_search date_pattern_full (strip p) = None
                \<or> re_search date_pattern_full (strip q) = None")
    case False
    then obtain fm tm where fm: "re_search date_pattern_full (strip p) = Some fm"
      and tm: "re_search date_pattern_full (strip q) = Some tm" by auto
    from search_full_Some [OF fm] obtain i
      where i: "leftmost full_date_at (strip p) i" "fm = drop i (strip p)" by blast
    from search_full_Some [OF tm] obtain k
      where k: "leftmost full_date_at (strip q) k" "tm = drop k (strip q)" by blast
    from parse_date_two_full [OF sp fm tm, of e w] assms
    have f: "f = sub (strip p) (i + 6) 4 @ ''-'' @ sub (strip p) (i + 3) 2 @ ''-''
                 @ sub (strip p) i 2"
      and t: "t = sub (strip q) (k + 6) 4 @ ''-'' @ sub (strip q) (k + 3) 2 @ ''-''
                 @ sub (strip q) k 2"
      by (simp_all add: i(2) k(2) sub_drop)
    have si: "short_date_at (strip p) i" using i(1) by (simp add: leftmost_iff full_has_short)
    have sk: "short_date_at (strip q) k" using k(1) by (simp add: leftmost_iff full_has_short)
    from sp si sk f t i(1) k(1) show ?thesis by blast
  next
    case nf: True
    have "re_search date_pattern_short (strip p) \<noteq> None
          \<and> re_search date_pattern_short (strip q) \<noteq> None"
    proof (rule ccontr)
      assume "\<not> ?thesis"
      then have "re_search date_pattern_short (strip p) = None
                 \<or> re_search date_pattern_short (strip q) = None" by simp
      from parse_date_two_none [OF sp nf this, of e w] assms show False by simp
    qed
    then obtain fm tm where fm: "re_search date_pattern_short (strip p) = Some fm"
      and tm: "re_search date_pattern_short (strip q) = Some tm" by auto
    from search_short_Some [OF fm] obtain i
      where i: "leftmost short_date_at (strip p) i" "fm = drop i (strip p)" by blast
    from search_short_Some [OF tm] obtain k
      where k: "leftmost short_date_at (strip q) k" "tm = drop k (strip q)" by blast
    define y where "y = (case re_search year_pattern s of Some ym \<Rightarrow> sub ym 0 4
                         | None \<Rightarrow> str (year (clock e (readings w))))"
    from parse_date_two_short [OF sp nf fm tm, of e w] assms
    have f: "f = y @ ''-'' @ sub (strip p) (i + 3) 2 @ ''-'' @ sub (strip p) i 2"
      and t: "t = y @ ''-'' @ sub (strip q) (k + 3) 2 @ ''-'' @ sub (strip q) k 2"
      by (simp_all add: y_def i(2) k(2) sub_drop)
    have yr: "(\<exists>j. leftmost four_digits_at s j \<and> y = sub s j 4)
              \<or> \<not> occurs four_digits_at s \<and> y = str (year (clock e (readings w)))"
    proof (cases "re_search year_pattern s")
      case None
      then have "y = str (year (clock e (readings w)))" by (simp add: y_def)
      moreover from None have "\<not> occurs four_digits_at s" by (simp add: search_year_None)
      ultimately show ?thesis by blast
    next
      case (Some ym)
      from search_year_Some [OF Some] obtain j
        where "leftmost four_digits_at s j" "ym = drop j s" by blast
      then show ?thesis using Some by (auto simp: y_def sub_drop)
    qed
    have nb: "\<not> (occurs full_date_at (strip p) \<and> occurs full_date_at (strip q))"
      using nf by (auto simp: search_full_None)
    have si: "short_date_at (strip p) i" using i(1) by (simp add: leftmost_iff)
    have sk: "short_date_at (strip q) k" using k(1) by (simp add: leftmost_iff)
    from sp si sk f t nb i(1) k(1) yr show ?thesis by blast
  qed
qed

section \<open>Claims on parse_date\<close>

text \<open>
  C1. When the stripped text splits at \<open>-\<close> into exactly two segments and each stripped
  segment contains a full date (two digits, a dot, two digits, a dot, four digits),
  \<open>parse_date\<close> returns both dates as YYYY-MM-DD, each from the day, month and year of the
  leftmost full date of its own segment, and does not read the clock. For
  \<open>01.03.2024 - 15.03.2024\<close> the result is 2024-03-01 and 2024-03-15.
\<close>

theorem parse_date_full_form:
  assumes "split CHR ''-'' (strip s) = [a, b]"
    and "leftmost full_date_at (strip a) i"
    and "leftmost full_date_at (strip b) k"
  shows "parse_date e s w =
           ((Some (sub (strip a) (i + 6) 4 @ ''-'' @ sub (strip a) (i + 3) 2 @ ''-''
                   @ sub (strip a) i 2),
             Some (sub (strip b) (k + 6) 4 @ ''-'' @ sub (strip b) (k + 3) 2 @ ''-''
                   @ sub (strip b) k 2)), w)"
proof -
  have fa: "re_search date_pattern_full (strip a) = Some (drop i (strip a))"
    using assms(2) by (rule search_full_leftmost)
  have fb: "re_search date_pattern_full (strip b) = Some (drop k (strip b))"
    using assms(3) by (rule search_full_leftmost)
  show ?thesis
    unfolding parse_date_def using assms(1) fa fb by (simp add: sub_drop Let_def)
qed

theorem parse_date_full_form_witness:
  "split CHR ''-'' (strip ''01.03.2024 - 15.03.2024'') = [''01.03.2024 '', '' 15.03.2024'']
   \<and> leftmost full_date_at (strip ''01.03.2024 '') 0
   \<and> leftmost full_date_at (strip '' 15.03.2024'') 0
   \<and> parse_date example_env ''01.03.2024 - 15.03.2024'' example_world
       = ((Some ''2024-03-01'', Some ''2024-03-15''), example_world)"
proof -
  have h1: "split CHR ''-'' (strip ''01.03.2024 - 15.03.2024'')
            = [''01.03.2024 '', '' 15.03.2024'']" by code_simp
  have h2: "leftmost full_date_at (strip ''01.03.2024 '') 0" by code_simp
  have h3: "leftmost full_date_at (strip '' 15.03.2024'') 0" by code_simp
  have v1: "sub (strip ''01.03.2024 '') (0 + 6) 4 @ ''-'' @ sub (strip ''01.03.2024 '') (0 + 3) 2
            @ ''-'' @ sub (strip ''01.03.2024 '') 0 2 = ''2024-03-01''" by code_simp
  have v2: "sub (strip '' 15.03.2024'') (0 + 6) 4 @ ''-'' @ sub (strip '' 15.03.2024'') (0 + 3) 2
            @ ''-'' @ sub (strip '' 15.03.2024'') 0 2 = ''2024-03-15''" by code_simp
  have "parse_date example_env ''01.03.2024 - 15.03.2024'' example_world
          = ((Some ''2024-03-01'', Some ''2024-03-15''), example_world)"
    using parse_date_full_form [OF h1 h2 h3, of example_env example_world] unfolding v1 v2 .
  with h1 h2 h3 show ?thesis by blast
qed

text \<open>
  C4. \<open>parse_date\<close> always returns a pair. The pair is absent on both sides when the
  stripped text does not split at \<open>-\<close> into exactly two parts, and when neither a full date
  stands in both segments nor a short date stands in both; in every case the two sides are
  absent together or present together. On a text no operation of the body raises, so the
  handler, which would return the absent pair as well, is never entered.
\<close>

theorem parse_date_never_fails:
  "(length (split CHR ''-'' (strip s)) \<noteq> 2 \<longrightarrow> parse_date e s w = ((None, None), w))
   \<and> (split CHR ''-'' (strip s) = [a, b]
        \<and> \<not> (occurs full_date_at (strip a) \<and> occurs full_date_at (strip b))
        \<and> \<not> (occurs short_date_at (strip a) \<and> occurs short_date_at (strip b))
      \<longrightarrow> parse_date e s w = ((None, None), w))
   \<and> (fst (parse_date e s w) = (None, None)
        \<or> (\<exists>f t. fst (parse_date e s w) = (Some f, Some t)))"
proof (intro conjI impI)
  assume "length (split CHR ''-'' (strip s)) \<noteq> 2"
  then show "parse_date e s w = ((None, None), w)" by (rule parse_date_not_two)
next
  assume h: "split CHR ''-'' (strip s) = [a, b]
        \<and> \<not> (occurs full_date_at (strip a) \<and> occurs full_date_at (strip b))
        \<and> \<not> (occurs short_date_at (strip a) \<and> occurs short_date_at (strip b))"
  then have "re_search date_pattern_full (strip a) = None
             \<or> re_search date_pattern_full (strip b) = None"
    by (simp add: search_full_None)
  moreover from h have "re_search date_pattern_short (strip a) = None
             \<or> re_search date_pattern_short (strip b) = None"
    by (simp add: search_short_None)
  ultimately show "parse_date e s w = ((None, None), w)"
    using h parse_date_two_none by blast
next
  show "fst (parse_date e s w) = (None, None)
        \<or> (\<exists>f t. fst (parse_date e s w) = (Some f, Some t))"
    by (rule parse_date_both_or_none)
qed

theorem parse_date_never_fails_witness:
  "length (split CHR ''-'' (strip ''not a date'')) \<noteq> 2
   \<and> parse_date example_env ''not a date'' example_world = ((None, None), example_world)
   \<and> length (split CHR ''-'' (strip ''1-2-3'')) \<noteq> 2
   \<and> parse_date example_env ''1-2-3'' example_world = ((None, None), example_world)
   \<and> split CHR ''-'' (strip ''01.03. - soon'') = [''01.03. '', '' soon'']
   \<and> \<not> (occurs full_date_at (strip ''01.03. '') \<and> occurs full_date_at (strip '' soon''))
   \<and> \<not> (occurs short_date_at (strip ''01.03. '') \<and> occurs short_date_at (strip '' soon''))
   \<and> parse_date example_env ''01.03. - soon'' example_world = ((None, None), example_world)"
proof -
  have a1: "length (split CHR ''-'' (strip ''not a date'')) \<noteq> 2" by code_simp
  have a2: "length (split CHR ''-'' (strip ''1-2-3'')) \<noteq> 2" by code_simp
  have a3: "split CHR ''-'' (strip ''01.03. - soon'') = [''01.03. '', '' soon'']" by code_simp
  have a4: "\<not> (occurs full_date_at (strip ''01.03. '') \<and> occurs full_date_at (strip '' soon''))"
    by code_simp
  have a5: "\<not> (occurs short_date_at (strip ''01.03. '') \<and> occurs short_date_at (strip '' soon''))"
    by code_simp
  note t1 = parse_date_never_fails [of "''not a date''" example_env example_world "[]" "[]"]
  note t2 = parse_date_never_fails [of "''1-2-3''" example_env example_world "[]" "[]"]
  note t3 = parse_date_never_fails [of "''01.03. - soon''" example_env example_world
              "''01.03. ''" "'' soon''"]
  from t1 a1 have r1: "parse_date example_env ''not a date'' example_world
                       = ((None, None), example_world)" by blast
  from t2 a2 have r2: "parse_date example_env ''1-2-3'' example_world
                       = ((None, None), example_world)" by blast
  from t3 a3 a4 a5 have r3: "parse_date example_env ''01.03. - soon'' example_world
                       = ((None, None), example_world)" by blast
  from a1 a2 a3 a4 a5 r1 r2 r3 show ?thesis by blast
qed

text \<open>
  C10. When both segments contain a full date, the result of \<open>parse_date\<close> is the same
  under any two environments and worlds, and the clock is not read. Two calls on one text
  can differ only when the clock was read, short dates stand in both segments, full dates
  do not stand in both, and the text holds no four digits in a row.
\<close>

theorem parse_date_clock_independent:
  "(split CHR ''-'' (strip s) = [a, b] \<and> full_date_at (strip a) i \<and> full_date_at (strip b) k
      \<longrightarrow> fst (parse_date e1 s w1) = fst (parse_date e2 s w2)
          \<and> snd (parse_date e1 s w1) = w1)
   \<and> (fst (parse_date e1 s w1) \<noteq> fst (parse_date e2 s w2)
      \<longrightarrow> \<not> occurs four_digits_at s
          \<and> snd (parse_date e1 s w1) = w1\<lparr>readings := Suc (readings w1)\<rparr>
          \<and> (\<exists>a b. split CHR ''-'' (strip s) = [a, b]
                \<and> occurs short_date_at (strip a) \<and> occurs short_date_at (strip b)
                \<and> \<not> (occurs full_date_at (strip a) \<and> occurs full_date_at (strip b))))"
proof (intro conjI impI)
  assume h: "split CHR ''-'' (strip s) = [a, b] \<and> full_date_at (strip a) i
             \<and> full_date_at (strip b) k"
  then obtain i' k' where "leftmost full_date_at (strip a) i'" "leftmost full_date_at (strip b) k'"
    using leftmost_exists by meson
  then have fa: "re_search date_pattern_full (strip a) = Some (drop i' (strip a))"
    and fb: "re_search date_pattern_full (strip b) = Some (drop k' (strip b))"
    by (simp_all add: search_full_leftmost)
  from h have sp: "split CHR ''-'' (strip s) = [a, b]" by simp
  show "fst (parse_date e1 s w1) = fst (parse_date e2 s w2)"
    by (simp add: parse_date_two_full [OF sp fa fb])
  show "snd (parse_date e1 s w1) = w1"
    by (simp add: parse_date_two_full [OF sp fa fb])
next
  assume d: "fst (parse_date e1 s w1) \<noteq> fst (parse_date e2 s w2)"
  have two: "length (split CHR ''-'' (strip s)) = 2"
    using d parse_date_not_two by (metis fst_conv)
  then obtain a b where sp: "split CHR ''-'' (strip s) = [a, b]"
    by (auto simp: length_Suc_conv numeral_2_eq_2)
  have nf: "re_search date_pattern_full (strip a) = None
            \<or> re_search date_pattern_full (strip b) = None"
  proof (rule ccontr)
    assume "\<not> ?thesis"
    then obtain fm tm where "re_search date_pattern_full (strip a) = Some fm"
      "re_search date_pattern_full (strip b) = Some tm" by auto
    from parse_date_two_full [OF sp this] d show False by simp
  qed
  have sh: "re_search date_pattern_short (strip a) \<noteq> None
            \<and> re_search date_pattern_short (strip b) \<noteq> None"
  proof (rule ccontr)
    assume "\<not> ?thesis"
    then have "re_search date_pattern_short (strip a) = None
               \<or> re_search date_pattern_short (strip b) = None" by simp
    from parse_date_two_none [OF sp nf this] d show False by simp
  qed
  then obtain fm tm where fm: "re_search date_pattern_short (strip a) = Some fm"
    and tm: "re_search date_pattern_short (strip b) = Some tm" by auto
  note ps = parse_date_two_short [OF sp nf fm tm]
  have ny: "re_search year_pattern s = None"
  proof (rule ccontr)
    assume "re_search year_pattern s \<noteq> None"
    then obtain ym where "re_search year_pattern s = Some ym" by auto
    with ps d show False by simp
  qed
  show "\<not> occurs four_digits_at s" using ny by (simp add: search_year_None)
  show "snd (parse_date e1 s w1) = w1\<lparr>readings := Suc (readings w1)\<rparr>" by (simp add: ps)
  show "\<exists>a b. split CHR ''-'' (strip s) = [a, b]
                \<and> occurs short_date_at (strip a) \<and> occurs short_date_at (strip b)
                \<and> \<not> (occurs full_date_at (strip a) \<and> occurs full_date_at (strip b))"
    using sp nf sh by (auto simp: search_full_None search_short_None)
qed

theorem parse_date_clock_independent_witness:
  "split CHR ''-'' (strip ''01.03.2024 - 15.03.2024'') = [''01.03.2024 '', '' 15.03.2024'']
   \<and> full_date_at (strip ''01.03.2024 '') 0 \<and> full_date_at (strip '' 15.03.2024'') 0
   \<and> fst (parse_date example_env ''01.03.2024 - 15.03.2024'' example_world)
       = fst (parse_date example_env_1999 ''01.03.2024 - 15.03.2024''
                (example_world\<lparr>readings := 7\<rparr>))
   \<and> fst (parse_date example_env ''01.03. - 15.03.'' example_world)
       \<noteq> fst (parse_date example_env_1999 ''01.03. - 15.03.'' example_world)
   \<and> \<not> occurs four_digits_at ''01.03. - 15.03.''"
proof -
  have h1: "split CHR ''-'' (strip ''01.03.2024 - 15.03.2024'')
            = [''01.03.2024 '', '' 15.03.2024'']" by code_simp
  have h2: "full_date_at (strip ''01.03.2024 '') 0" by code_simp
  have h3: "full_date_at (strip '' 15.03.2024'') 0" by code_simp
  have d: "fst (parse_date example_env ''01.03. - 15.03.'' example_world)
           \<noteq> fst (parse_date example_env_1999 ''01.03. - 15.03.'' example_world)"
    by code_simp
  note t1 = parse_date_clock_independent [of "''01.03.2024 - 15.03.2024''" "''01.03.2024 ''"
      "'' 15.03.2024''" 0 0 example_env example_world example_env_1999
      "example_world\<lparr>readings := 7\<rparr>"]
  note t2 = parse_date_clock_independent [of "''01.03. - 15.03.''" "[]" "[]" 0 0
      example_env example_world example_env_1999 example_world]
  from t1 h1 h2 h3
  have r1: "fst (parse_date example_env ''01.03.2024 - 15.03.2024'' example_world)
       = fst (parse_date example_env_1999 ''01.03.2024 - 15.03.2024''
                (example_world\<lparr>readings := 7\<rparr>))" by blast
  from t2 d have r2: "\<not> occurs four_digits_at ''01.03. - 15.03.''" by blast
  from h1 h2 h3 r1 d r2 show ?thesis by blast
qed

text \<open>
  C2, as stated, fails. In \<open>01.03. - 15.03.2024\<close> the first segment holds only a short
  date and the second a full date. The full pattern does not fit both segments, but the
  short pattern does, since a full date begins with a short one; the year is then taken
  from the four digits found in the text, and both dates are returned.
\<close>

theorem parse_date_mixed_counterexample:
  "split CHR ''-'' (strip ''01.03. - 15.03.2024'') = [''01.03. '', '' 15.03.2024'']
   \<and> occurs short_date_at (strip ''01.03. '') \<and> \<not> occurs full_date_at (strip ''01.03. '')
   \<and> occurs full_date_at (strip '' 15.03.2024'')
   \<and> fst (parse_date example_env ''01.03. - 15.03.2024'' example_world)
       = (Some ''2024-03-01'', Some ''2024-03-15'')"
  by code_simp

text \<open>
  C2, as amended. When the stripped text splits into exactly two segments, one containing
  a full date and the other a short date but no full date, \<open>parse_date\<close> succeeds: each
  date takes the day and month of the leftmost short date of its own segment, and both take
  as year the leftmost four digits in a row of the whole text, which exist because the full
  date supplies them. The clock is read once, its value unused.
\<close>

theorem parse_date_mixed_form:
  assumes "split CHR ''-'' (strip s) = [a, b]"
    and "(full_date_at (strip a) p \<and> \<not> occurs full_date_at (strip b) \<and> short_date_at (strip b) q)
         \<or> (full_date_at (strip b) p \<and> \<not> occurs full_date_at (strip a)
            \<and> short_date_at (strip a) q)"
  shows "\<exists>i k j. leftmost short_date_at (strip a) i \<and> leftmost short_date_at (strip b) k
           \<and> leftmost four_digits_at s j
           \<and> parse_date e s w =
               ((Some (sub s j 4 @ ''-'' @ sub (strip a) (i + 3) 2 @ ''-'' @ sub (strip a) i 2),
                 Some (sub s j 4 @ ''-'' @ sub (strip b) (k + 3) 2 @ ''-'' @ sub (strip b) k 2)),
                w\<lparr>readings := Suc (readings w)\<rparr>)"
proof -
  have sa: "\<exists>x. short_date_at (strip a) x" using assms(2) full_has_short by blast
  have sb: "\<exists>x. short_date_at (strip b) x" using assms(2) full_has_short by blast
  from sa obtain i where i: "leftmost short_date_at (strip a) i" using leftmost_exists by blast
  from sb obtain k where k: "leftmost short_date_at (strip b) k" using leftmost_exists by blast
  have "four_digits_at (strip a) (p + 6) \<or> four_digits_at (strip b) (p + 6)"
    using assms(2) full_has_year by blast
  with assms(1) have "\<exists>x. four_digits_at s x" by (rule digits_of_segment)
  then obtain j where j: "leftmost four_digits_at s j" using leftmost_exists by blast
  have nf: "re_search date_pattern_full (strip a) = None
            \<or> re_search date_pattern_full (strip b) = None"
    using assms(2) by (auto simp: search_full_None)
  have fm: "re_search date_pattern_short (strip a) = Some (drop i (strip a))"
    using i by (rule search_short_leftmost)
  have tm: "re_search date_pattern_short (strip b) = Some (drop k (strip b))"
    using k by (rule search_short_leftmost)
  have ym: "re_search year_pattern s = Some (drop j s)"
    using j by (rule search_year_leftmost)
  have "parse_date e s w =
               ((Some (sub s j 4 @ ''-'' @ sub (strip a) (i + 3) 2 @ ''-'' @ sub (strip a) i 2),
                 Some (sub s j 4 @ ''-'' @ sub (strip b) (k + 3) 2 @ ''-'' @ sub (strip b) k 2)),
                w\<lparr>readings := Suc (readings w)\<rparr>)"
    using parse_date_two_short [OF assms(1) nf fm tm, of e w] ym by (simp add: sub_drop)
  with i k j show ?thesis by blast
qed

theorem parse_date_mixed_form_witness:
  "split CHR ''-'' (strip ''01.03. - 15.03.2024'') = [''01.03. '', '' 15.03.2024'']
   \<and> full_date_at (strip '' 15.03.2024'') 0 \<and> \<not> occurs full_date_at (strip ''01.03. '')
   \<and> short_date_at (strip ''01.03. '') 0
   \<and> (\<exists>i k j. leftmost short_date_at (strip ''01.03. '') i
         \<and> leftmost short_date_at (strip '' 15.03.2024'') k
         \<and> leftmost four_digits_at ''01.03. - 15.03.2024'' j
         \<and> parse_date example_env ''01.03. - 15.03.2024'' example_world =
             ((Some (sub ''01.03. - 15.03.2024'' j 4 @ ''-'' @ sub (strip ''01.03. '') (i + 3) 2
                     @ ''-'' @ sub (strip ''01.03. '') i 2),
               Some (sub ''01.03. - 15.03.2024'' j 4 @ ''-''
                     @ sub (strip '' 15.03.2024'') (k + 3) 2
                     @ ''-'' @ sub (strip '' 15.03.2024'') k 2)),
              example_world\<lparr>readings := Suc (readings example_world)\<rparr>))"
proof -
  have h1: "split CHR ''-'' (strip ''01.03. - 15.03.2024'') = [''01.03. '', '' 15.03.2024'']"
    by code_simp
  have h2: "full_date_at (strip '' 15.03.2024'') 0" by code_simp
  have h3: "\<not> occurs full_date_at (strip ''01.03. '')" by code_simp
  have h4: "short_date_at (strip ''01.03. '') 0" by code_simp
  from h2 h3 h4 have h: "(full_date_at (strip ''01.03. '') 0
        \<and> \<not> occurs full_date_at (strip '' 15.03.2024'') \<and> short_date_at (strip '' 15.03.2024'') 0)
      \<or> (full_date_at (strip '' 15.03.2024'') 0 \<and> \<not> occurs full_date_at (strip ''01.03. '')
         \<and> short_date_at (strip ''01.03. '') 0)" by blast
  from parse_date_mixed_form [OF h1 h, of example_env example_world] h1 h2 h3 h4
  show ?thesis by blast
qed

text \<open>
  C3, as stated, fails on the word standalone. In \<open>01.03. - 15.03. Tel 123456\<close> both
  segments hold only short dates and the text has no standalone four-digit number, the only
  longer run of digits being six long; the claim then gives the current year, 2026 in the
  example environment, but the year search takes the first four digits of the run, 1234.
\<close>

theorem parse_date_year_counterexample:
  "split CHR ''-'' (strip ''01.03. - 15.03. Tel 123456'') = [''01.03. '', '' 15.03. Tel 123456'']
   \<and> occurs short_date_at (strip ''01.03. '') \<and> \<not> occurs full_date_at (strip ''01.03. '')
   \<and> occurs short_date_at (strip '' 15.03. Tel 123456'')
   \<and> \<not> occurs full_date_at (strip '' 15.03. Tel 123456'')
   \<and> standalone_four_digit_numbers ''01.03. - 15.03. Tel 123456'' = []
   \<and> str (year (clock example_env (readings example_world))) = ''2026''
   \<and> fst (parse_date example_env ''01.03. - 15.03. Tel 123456'' example_world)
       = (Some ''1234-03-01'', Some ''1234-03-15'')"
  by code_simp

text \<open>
  C3, as amended. When the stripped text splits into exactly two segments and each holds a
  short date and no full date, both dates share one year: the leftmost four digits in a row
  found anywhere in the whole text, whether or not they are part of a longer run of digits,
  or, when the text has no four digits in a row, the decimal form of the current year read
  from the clock at the call. Day and month come from the leftmost short date of each
  segment.
\<close>

theorem parse_date_short_form:
  assumes "split CHR ''-'' (strip s) = [a, b]"
    and "leftmost short_date_at (strip a) i" and "leftmost short_date_at (strip b) k"
    and "\<not> occurs full_date_at (strip a)" and "\<not> occurs full_date_at (strip b)"
  shows "(leftmost four_digits_at s j \<longrightarrow>
            fst (parse_date e s w) =
              (Some (sub s j 4 @ ''-'' @ sub (strip a) (i + 3) 2 @ ''-'' @ sub (strip a) i 2),
               Some (sub s j 4 @ ''-'' @ sub (strip b) (k + 3) 2 @ ''-'' @ sub (strip b) k 2)))
         \<and> (\<not> occurs four_digits_at s \<longrightarrow>
            fst (parse_date e s w) =
              (Some (str (year (clock e (readings w))) @ ''-'' @ sub (strip a) (i + 3) 2 @ ''-''
                     @ sub (strip a) i 2),
               Some (str (year (clock e (readings w))) @ ''-'' @ sub (strip b) (k + 3) 2 @ ''-''
                     @ sub (strip b) k 2)))"
proof -
  have nf: "re_search date_pattern_full (strip a) = None
            \<or> re_search date_pattern_full (strip b) = None"
    using assms(4) by (simp add: search_full_None)
  have fm: "re_search date_pattern_short (strip a) = Some (drop i (strip a))"
    using assms(2) by (rule search_short_leftmost)
  have tm: "re_search date_pattern_short (strip b) = Some (drop k (strip b))"
    using assms(3) by (rule search_short_leftmost)
  note ps = parse_date_two_short [OF assms(1) nf fm tm, of e w]
  show ?thesis
  proof (intro conjI impI)
    assume "leftmost four_digits_at s j"
    then have "re_search year_pattern s = Some (drop j s)" by (rule search_year_leftmost)
    with ps show "fst (parse_date e s w) =
              (Some (sub s j 4 @ ''-'' @ sub (strip a) (i + 3) 2 @ ''-'' @ sub (strip a) i 2),
               Some (sub s j 4 @ ''-'' @ sub (strip b) (k + 3) 2 @ ''-'' @ sub (strip b) k 2))"
      by (simp add: sub_drop)
  next
    assume "\<not> occurs four_digits_at s"
    then have "re_search year_pattern s = None" by (simp add: search_year_None)
    with ps show "fst (parse_date e s w) =
              (Some (str (year (clock e (readings w))) @ ''-'' @ sub (strip a) (i + 3) 2 @ ''-''
                     @ sub (strip a) i 2),
               Some (str (year (clock e (readings w))) @ ''-'' @ sub (strip b) (k + 3) 2 @ ''-''
                     @ sub (strip b) k 2))"
      by (simp add: sub_drop)
  qed
qed


theorem parse_date_short_form_witness:
  "split CHR ''-'' (strip ''gultig 01.03. - 15.03. im Jahr 2024'')
     = [''gultig 01.03. '', '' 15.03. im Jahr 2024'']
   \<and> leftmost short_date_at (strip ''gultig 01.03. '') 7
   \<and> leftmost short_date_at (strip '' 15.03. im Jahr 2024'') 0
   \<and> \<not> occurs full_date_at (strip ''gultig 01.03. '')
   \<and> \<not> occurs full_date_at (strip '' 15.03. im Jahr 2024'')
   \<and> leftmost four_digits_at ''gultig 01.03. - 15.03. im Jahr 2024'' 31
   \<and> fst (parse_date example_env ''gultig 01.03. - 15.03. im Jahr 2024'' example_world)
       = (Some ''2024-03-01'', Some ''2024-03-15'')
   \<and> split CHR ''-'' (strip ''01.03. - 15.03.'') = [''01.03. '', '' 15.03.'']
   \<and> leftmost short_date_at (strip ''01.03. '') 0
   \<and> leftmost short_date_at (strip '' 15.03.'') 0
   \<and> \<not> occurs full_date_at (strip ''01.03. '')
   \<and> \<not> occurs full_date_at (strip '' 15.03.'')
   \<and> \<not> occurs four_digits_at ''01.03. - 15.03.''
   \<and> fst (parse_date example_env ''01.03. - 15.03.'' example_world)
       = (Some ''2026-03-01'', Some ''2026-03-15'')"
proof -
  have a1: "split CHR ''-'' (strip ''gultig 01.03. - 15.03. im Jahr 2024'')
     = [''gultig 01.03. '', '' 15.03. im Jahr 2024'']" by code_simp
  have a2: "leftmost short_date_at (strip ''gultig 01.03. '') 7" by code_simp
  have a3: "leftmost short_date_at (strip '' 15.03. im Jahr 2024'') 0" by code_simp
  have a4: "\<not> occurs full_date_at (strip ''gultig 01.03. '')" by code_simp
  have a5: "\<not> occurs full_date_at (strip '' 15.03. im Jahr 2024'')" by code_simp
  have a6: "leftmost four_digits_at ''gultig 01.03. - 15.03. im Jahr 2024'' 31" by code_simp
  have va: "sub ''gultig 01.03. - 15.03. im Jahr 2024'' 31 4 @ ''-''
            @ sub (strip ''gultig 01.03. '') (7 + 3) 2 @ ''-'' @ sub (strip ''gultig 01.03. '') 7 2
            = ''2024-03-01''" by code_simp
  have vb: "sub ''gultig 01.03. - 15.03. im Jahr 2024'' 31 4 @ ''-''
            @ sub (strip '' 15.03. im Jahr 2024'') (0 + 3) 2 @ ''-''
            @ sub (strip '' 15.03. im Jahr 2024'') 0 2
            = ''2024-03-15''" by code_simp
  have ra: "fst (parse_date example_env ''gultig 01.03. - 15.03. im Jahr 2024'' example_world)
       = (Some ''2024-03-01'', Some ''2024-03-15'')"
    using parse_date_short_form [OF a1 a2 a3 a4 a5, of 31 example_env example_world] a6
    unfolding va vb by blast
  have b1: "split CHR ''-'' (strip ''01.03. - 15.03.'') = [''01.03. '', '' 15.03.'']"
    by code_simp
  have b2: "leftmost short_date_at (strip ''01.03. '') 0" by code_simp
  have b3: "leftmost short_date_at (strip '' 15.03.'') 0" by code_simp
  have b4: "\<not> occurs full_date_at (strip ''01.03. '')" by code_simp
  have b5: "\<not> occurs full_date_at (strip '' 15.03.'')" by code_simp
  have b6: "\<not> occurs four_digits_at ''01.03. - 15.03.''" by code_simp
  have vc: "str (year (clock example_env (readings example_world))) @ ''-''
            @ sub (strip ''01.03. '') (0 + 3) 2 @ ''-'' @ sub (strip ''01.03. '') 0 2
            = ''2026-03-01''" by code_simp
  have vd: "str (year (clock example_env (readings example_world))) @ ''-''
            @ sub (strip '' 15.03.'') (0 + 3) 2 @ ''-'' @ sub (strip '' 15.03.'') 0 2
            = ''2026-03-15''" by code_simp
  have rb: "fst (parse_date example_env ''01.03. - 15.03.'' example_world)
       = (Some ''2026-03-01'', Some ''2026-03-15'')"
    using parse_date_short_form [OF b1 b2 b3 b4 b5, of 0 example_env example_world] b6
    unfolding vc vd by blast
  from a1 a2 a3 a4 a5 a6 ra b1 b2 b3 b4 b5 b6 rb show ?thesis by blast
qed

section \<open>Claims on the extractor\<close>

text \<open>
  C5, as stated, fails. The extractor accepts a fragment whose validity text is
  \<open>31.02.2024 - 99.99.2024\<close> and stores 2024-02-31 and 2024-99-99, neither of which is a
  date of the calendar: the digits are copied, never checked.
\<close>

theorem extract_dates_counterexample:
  "map_option valid_from (fst (extract_brochure_data example_env
       (example_fragment ''Angebote'' ''/img/a.jpg'' ''31.02.2024 - 99.99.2024'') ''Lidl''
       example_world)) = Some ''2024-02-31''
   \<and> map_option valid_to (fst (extract_brochure_data example_env
       (example_fragment ''Angebote'' ''/img/a.jpg'' ''31.02.2024 - 99.99.2024'') ''Lidl''
       example_world)) = Some ''2024-99-99''
   \<and> \<not> calendar_date ''2024-02-31'' \<and> \<not> calendar_date ''2024-99-99''"
  by code_simp

text \<open>
  C5, as amended. Every record the extractor produces has a \<open>valid_from\<close> and a
  \<open>valid_to\<close> of the shape YYYY-MM-DD (four digits, a hyphen, two digits, a hyphen, two
  digits), provided the current year has four digits. The validity text of the fragment
  splits at \<open>-\<close> into two segments; the day and month of \<open>valid_from\<close> are the two digit
  pairs of a short date (two digits, a dot, two digits, a dot) standing in the first
  segment, those of \<open>valid_to\<close> of one standing in the second, copied as they are and not
  checked against the calendar. Either both are the leftmost full dates of their segments
  and each date takes its own four-digit year; or full dates do not stand in both
  segments, both are the leftmost short dates, and the two dates share one year, the
  leftmost four digits in a row of the validity text or, when it has none, the current
  year.
\<close>

theorem extract_dates_shape:
  assumes "extract_brochure_data e b shop w = (Some r, w')"
    and "1000 \<le> year (clock e (readings w))" and "year (clock e (readings w)) \<le> 9999"
  shows "iso_shape (valid_from r) \<and> iso_shape (valid_to r)
         \<and> (\<exists>de p q i k y1 y2.
               date_element_of b = Some de
               \<and> split CHR ''-'' (strip (strip (get_text de))) = [p, q]
               \<and> short_date_at (strip p) i \<and> short_date_at (strip q) k
               \<and> valid_from r = y1 @ ''-'' @ sub (strip p) (i + 3) 2 @ ''-'' @ sub (strip p) i 2
               \<and> valid_to r = y2 @ ''-'' @ sub (strip q) (k + 3) 2 @ ''-'' @ sub (strip q) k 2
               \<and> (leftmost full_date_at (strip p) i \<and> leftmost full_date_at (strip q) k
                    \<and> y1 = sub (strip p) (i + 6) 4 \<and> y2 = sub (strip q) (k + 6) 4
                  \<or> \<not> (occurs full_date_at (strip p) \<and> occurs full_date_at (strip q))
                    \<and> leftmost short_date_at (strip p) i \<and> leftmost short_date_at (strip q) k
                    \<and> y1 = y2
                    \<and> ((\<exists>j. leftmost four_digits_at (strip (get_text de)) j
                              \<and> y1 = sub (strip (get_text de)) j 4)
                        \<or> \<not> occurs four_digits_at (strip (get_text de))
                          \<and> y1 = str (year (clock e (readings w))))))"
proof -
  from extract_Some [OF assms(1)] obtain de w1
    where de: "date_element_of b = Some de"
      and pd: "parse_date e (strip (get_text de)) w
               = ((Some (valid_from r), Some (valid_to r)), w1)"
    by blast
  have sh: "iso_shape (valid_from r) \<and> iso_shape (valid_to r)"
    using pd assms(2) assms(3) by (rule parse_date_shape)
  from parse_date_Some [OF pd] obtain p q i k y1 y2
    where "split CHR ''-'' (strip (strip (get_text de))) = [p, q]"
      and "short_date_at (strip p) i" and "short_date_at (strip q) k"
      and "valid_from r = y1 @ ''-'' @ sub (strip p) (i + 3) 2 @ ''-'' @ sub (strip p) i 2"
      and "valid_to r = y2 @ ''-'' @ sub (strip q) (k + 3) 2 @ ''-'' @ sub (strip q) k 2"
      and "leftmost full_date_at (strip p) i \<and> leftmost full_date_at (strip q) k
                    \<and> y1 = sub (strip p) (i + 6) 4 \<and> y2 = sub (strip q) (k + 6) 4
                  \<or> \<not> (occurs full_date_at (strip p) \<and> occurs full_date_at (strip q))
                    \<and> leftmost short_date_at (strip p) i \<and> leftmost short_date_at (strip q) k
                    \<and> y1 = y2
                    \<and> ((\<exists>j. leftmost four_digits_at (strip (get_text de)) j
                              \<and> y1 = sub (strip (get_text de)) j 4)
                        \<or> \<not> occurs four_digits_at (strip (get_text de))
                          \<and> y1 = str (year (clock e (readings w))))"
    by blast
  with de sh show ?thesis by blast
qed


theorem extract_dates_shape_witness:
  "extract_brochure_data example_env
       (example_fragment ''Angebote'' ''/img/a.jpg'' ''31.02.2024 - 99.99.2024'') ''Lidl'' example_world
     = (Some example_record, example_world\<lparr>readings := 1\<rparr>)
   \<and> 1000 \<le> year (clock example_env (readings example_world))
   \<and> year (clock example_env (readings example_world)) \<le> 9999
   \<and> valid_from example_record = ''2024-02-31'' \<and> valid_to example_record = ''2024-99-99''
   \<and> iso_shape (valid_from example_record) \<and> iso_shape (valid_to example_record)
   \<and> (\<exists>de p q i k y1 y2.
         date_element_of (example_fragment ''Angebote'' ''/img/a.jpg'' ''31.02.2024 - 99.99.2024'') = Some de
         \<and> split CHR ''-'' (strip (strip (get_text de))) = [p, q]
         \<and> short_date_at (strip p) i \<and> short_date_at (strip q) k
         \<and> valid_from example_record = y1 @ ''-'' @ sub (strip p) (i + 3) 2 @ ''-'' @ sub (strip p) i 2
         \<and> valid_to example_record = y2 @ ''-'' @ sub (strip q) (k + 3) 2 @ ''-'' @ sub (strip q) k 2
         \<and> (leftmost full_date_at (strip p) i \<and> leftmost full_date_at (strip q) k
              \<and> y1 = sub (strip p) (i + 6) 4 \<and> y2 = sub (strip q) (k + 6) 4
            \<or> \<not> (occurs full_date_at (strip p) \<and> occurs full_date_at (strip q))
              \<and> leftmost short_date_at (strip p) i \<and> leftmost short_date_at (strip q) k
              \<and> y1 = y2
              \<and> ((\<exists>j. leftmost four_digits_at (strip (get_text de)) j
                        \<and> y1 = sub (strip (get_text de)) j 4)
                  \<or> \<not> occurs four_digits_at (strip (get_text de))
                    \<and> y1 = str (year (clock example_env (readings example_world))))))
   \<and> extract_brochure_data example_env
       (example_fragment ''Angebote'' ''/img/a.jpg'' ''01.03. - 15.03.'') ''Lidl'' example_world
     = (Some example_record_short, example_world\<lparr>readings := 2\<rparr>)
   \<and> iso_shape (valid_from example_record_short) \<and> iso_shape (valid_to example_record_short)
   \<and> (\<exists>de p q i k y1 y2.
         date_element_of (example_fragment ''Angebote'' ''/img/a.jpg'' ''01.03. - 15.03.'') = Some de
         \<and> split CHR ''-'' (strip (strip (get_text de))) = [p, q]
         \<and> short_date_at (strip p) i \<and> short_date_at (strip q) k
         \<and> valid_from example_record_short = y1 @ ''-'' @ sub (strip p) (i + 3) 2 @ ''-'' @ sub (strip p) i 2
         \<and> valid_to example_record_short = y2 @ ''-'' @ sub (strip q) (k + 3) 2 @ ''-'' @ sub (strip q) k 2
         \<and> (leftmost full_date_at (strip p) i \<and> leftmost full_date_at (strip q) k
              \<and> y1 = sub (strip p) (i + 6) 4 \<and> y2 = sub (strip q) (k + 6) 4
            \<or> \<not> (occurs full_date_at (strip p) \<and> occurs full_date_at (strip q))
              \<and> leftmost short_date_at (strip p) i \<and> leftmost short_date_at (strip q) k
              \<and> y1 = y2
              \<and> ((\<exists>j. leftmost four_digits_at (strip (get_text de)) j
                        \<and> y1 = sub (strip (get_text de)) j 4)
                  \<or> \<not> occurs four_digits_at (strip (get_text de))
                    \<and> y1 = str (year (clock example_env (readings example_world))))))"
proof -
  have h1: "extract_brochure_data example_env
       (example_fragment ''Angebote'' ''/img/a.jpg'' ''31.02.2024 - 99.99.2024'') ''Lidl'' example_world
     = (Some example_record, example_world\<lparr>readings := 1\<rparr>)" by code_simp
  have h2: "1000 \<le> year (clock example_env (readings example_world))" by code_simp
  have h3: "year (clock example_env (readings example_world)) \<le> 9999" by code_simp
  have v1: "valid_from example_record = ''2024-02-31''" by code_simp
  have v2: "valid_to example_record = ''2024-99-99''" by code_simp
  have h4: "extract_brochure_data example_env
       (example_fragment ''Angebote'' ''/img/a.jpg'' ''01.03. - 15.03.'') ''Lidl'' example_world
     = (Some example_record_short, example_world\<lparr>readings := 2\<rparr>)" by code_simp
  note t1 = extract_dates_shape [OF h1 h2 h3]
  note t2 = extract_dates_shape [OF h4 h2 h3]
  from t1 have a1: "iso_shape (valid_from example_record)"
    and a2: "iso_shape (valid_to example_record)"
    and a3: "(\<exists>de p q i k y1 y2.
         date_element_of (example_fragment ''Angebote'' ''/img/a.jpg'' ''31.02.2024 - 99.99.2024'') = Some de
         \<and> split CHR ''-'' (strip (strip (get_text de))) = [p, q]
         \<and> short_date_at (strip p) i \<and> short_date_at (strip q) k
         \<and> valid_from example_record = y1 @ ''-'' @ sub (strip p) (i + 3) 2 @ ''-'' @ sub (strip p) i 2
         \<and> valid_to example_record = y2 @ ''-'' @ sub (strip q) (k + 3) 2 @ ''-'' @ sub (strip q) k 2
         \<and> (leftmost full_date_at (strip p) i \<and> leftmost full_date_at (strip q) k
              \<and> y1 = sub (strip p) (i + 6) 4 \<and> y2 = sub (strip q) (k + 6) 4
            \<or> \<not> (occurs full_date_at (strip p) \<and> occurs full_date_at (strip q))
              \<and> leftmost short_date_at (strip p) i \<and> leftmost short_date_at (strip q) k
              \<and> y1 = y2
              \<and> ((\<exists>j. leftmost four_digits_at (strip (get_text de)) j
                        \<and> y1 = sub (strip (get_text de)) j 4)
                  \<or> \<not> occurs four_digits_at (strip (get_text de))
                    \<and> y1 = str (year (clock example_env (readings example_world))))))"
    by blast+
  from t2 have b1: "iso_shape (valid_from example_record_short)"
    and b2: "iso_shape (valid_to example_record_short)"
    and b3: "(\<exists>de p q i k y1 y2.
         date_element_of (example_fragment ''Angebote'' ''/img/a.jpg'' ''01.03. - 15.03.'') = Some de
         \<and> split CHR ''-'' (strip (strip (get_text de))) = [p, q]
         \<and> short_date_at (strip p) i \<and> short_date_at (strip q) k
         \<and> valid_from example_record_short = y1 @ ''-'' @ sub (strip p) (i + 3) 2 @ ''-'' @ sub (strip p) i 2
         \<and> valid_to example_record_short = y2 @ ''-'' @ sub (strip q) (k + 3) 2 @ ''-'' @ sub (strip q) k 2
         \<and> (leftmost full_date_at (strip p) i \<and> leftmost full_date_at (strip q) k
              \<and> y1 = sub (strip p) (i + 6) 4 \<and> y2 = sub (strip q) (k + 6) 4
            \<or> \<not> (occurs full_date_at (strip p) \<and> occurs full_date_at (strip q))
              \<and> leftmost short_date_at (strip p) i \<and> leftmost short_date_at (strip q) k
              \<and> y1 = y2
              \<and> ((\<exists>j. leftmost four_digits_at (strip (get_text de)) j
                        \<and> y1 = sub (strip (get_text de)) j 4)
                  \<or> \<not> occurs four_digits_at (strip (get_text de))
                    \<and> y1 = str (year (clock example_env (readings example_world))))))"
    by blast+
  from h1 h2 h3 v1 v2 a1 a2 a3 h4 b1 b2 b3 show ?thesis by (intro conjI)
qed




text \<open>
  C7. For every fragment the extractor accepts, a thumbnail URL was found and is not empty;
  when it begins with \<open>http://\<close> or \<open>https://\<close> the record stores it unchanged, and
  otherwise the record stores the result of \<open>urljoin\<close> on the base URL of the site and
  the found URL.
\<close>

theorem extract_thumbnail:
  assumes "extract_brochure_data e b shop w = (Some r, w')"
  shows "\<exists>u. found_url b = Some u \<and> u \<noteq> []
           \<and> ((startswith u ''http://'' \<or> startswith u ''https://'') \<longrightarrow> thumbnail r = u)
           \<and> (\<not> (startswith u ''http://'' \<or> startswith u ''https://'')
                \<longrightarrow> thumbnail r = urljoin e BASE_URL u)"
proof -
  from extract_Some [OF assms] obtain u
    where u: "found_url b = Some u"
      and t: "thumbnail r = (if startswith u ''http://'' \<or> startswith u ''https://'' then u
                              else urljoin e BASE_URL u)"
    by blast
  from u have "u \<noteq> []" by (rule found_url_Some)
  with u t show ?thesis by auto
qed

theorem extract_thumbnail_witness:
  "extract_brochure_data example_env example_fragment_lazy ''Lidl'' example_world
     = (Some \<lparr>title = ''Lidl Prospekt'', thumbnail = ''https://cdn.example.org/lidl-1.jpg'',
              shop_name = ''Lidl'', valid_from = ''2024-03-01'', valid_to = ''2024-03-15'',
              parsed_time = ''2026-11-03 01:02:03''\<rparr>,
        example_world\<lparr>readings := 1\<rparr>)
   \<and> found_url example_fragment_lazy = Some ''https://cdn.example.org/lidl-1.jpg''
   \<and> startswith ''https://cdn.example.org/lidl-1.jpg'' ''https://''
   \<and> extract_brochure_data example_env
       (example_fragment ''Angebote'' ''/img/a.jpg'' ''01.03. - 15.03.2024'') ''Lidl''
       example_world
     = (Some \<lparr>title = ''Angebote'', thumbnail = ''https://www.prospektmaschine.de/img/a.jpg'',
              shop_name = ''Lidl'', valid_from = ''2024-03-01'', valid_to = ''2024-03-15'',
              parsed_time = ''2026-11-03 01:02:03''\<rparr>,
        example_world\<lparr>readings := 2\<rparr>)
   \<and> found_url (example_fragment ''Angebote'' ''/img/a.jpg'' ''01.03. - 15.03.2024'')
       = Some ''/img/a.jpg''
   \<and> \<not> (startswith ''/img/a.jpg'' ''http://'' \<or> startswith ''/img/a.jpg'' ''https://'')
   \<and> ''https://www.prospektmaschine.de/img/a.jpg'' = urljoin example_env BASE_URL ''/img/a.jpg''"
proof -
  have h1: "extract_brochure_data example_env example_fragment_lazy ''Lidl'' example_world
     = (Some \<lparr>title = ''Lidl Prospekt'', thumbnail = ''https://cdn.example.org/lidl-1.jpg'',
              shop_name = ''Lidl'', valid_from = ''2024-03-01'', valid_to = ''2024-03-15'',
              parsed_time = ''2026-11-03 01:02:03''\<rparr>,
        example_world\<lparr>readings := 1\<rparr>)" by code_simp
  have f1: "found_url example_fragment_lazy = Some ''https://cdn.example.org/lidl-1.jpg''"
    by code_simp
  have s1: "startswith ''https://cdn.example.org/lidl-1.jpg'' ''https://''" by code_simp
  have h2: "extract_brochure_data example_env
       (example_fragment ''Angebote'' ''/img/a.jpg'' ''01.03. - 15.03.2024'') ''Lidl''
       example_world
     = (Some \<lparr>title = ''Angebote'', thumbnail = ''https://www.prospektmaschine.de/img/a.jpg'',
              shop_name = ''Lidl'', valid_from = ''2024-03-01'', valid_to = ''2024-03-15'',
              parsed_time = ''2026-11-03 01:02:03''\<rparr>,
        example_world\<lparr>readings := 2\<rparr>)" by code_simp
  have f2: "found_url (example_fragment ''Angebote'' ''/img/a.jpg'' ''01.03. - 15.03.2024'')
       = Some ''/img/a.jpg''" by code_simp
  have s2: "\<not> (startswith ''/img/a.jpg'' ''http://'' \<or> startswith ''/img/a.jpg'' ''https://'')"
    by code_simp
  from extract_thumbnail [OF h2] f2 s2
  have "''https://www.prospektmaschine.de/img/a.jpg'' = urljoin example_env BASE_URL ''/img/a.jpg''"
    by simp
  with h1 f1 s1 h2 f2 s2 show ?thesis by blast
qed

section \<open>Claims on the walkers\<close>

text \<open>
  C8. When the catalog enumeration yields the shops \<open>s1 .. sn\<close>, the aggregate the run
  returns is the concatenation, in catalog order, of the record sequences of the shops, one
  sequence per shop; and the sequence of a shop is the records among the extractor's answers
  for the brochure fragments of its page, in document order. With shops A, B and C yielding
  a1 a2, b1 and c1 c2 c3 the aggregate is a1 a2 b1 c1 c2 c3.
\<close>

theorem scrape_all_order:
  assumes "get_hypermarket_links e w = (shops, w1)"
  shows "fst (scrape_all_hypermarkets e w) = concat (shop_runs e (length shops) 0 shops w1)
         \<and> length (shop_runs e (length shops) 0 shops w1) = length shops
         \<and> (\<forall>u nm w2.
               fst (get_brochures_for_shop e u nm w2) =
                 (case web e (requests w2) (shop_full_url e u) of
                    None \<Rightarrow> []
                  | Some page \<Rightarrow>
                      accepted (extractions e (find_all ''div'' (Some ''brochure-thumb'') page) nm
                                  (w2\<lparr>requests := Suc (requests w2)\<rparr>))))"
proof (intro conjI allI)
  show "fst (scrape_all_hypermarkets e w) = concat (shop_runs e (length shops) 0 shops w1)"
    using assms by (simp add: scrape_all_hypermarkets_def shops_loop_acc)
  show "length (shop_runs e (length shops) 0 shops w1) = length shops"
    by (rule length_shop_runs)
  show "fst (get_brochures_for_shop e u nm w2) =
                 (case web e (requests w2) (shop_full_url e u) of
                    None \<Rightarrow> []
                  | Some page \<Rightarrow>
                      accepted (extractions e (find_all ''div'' (Some ''brochure-thumb'') page) nm
                                  (w2\<lparr>requests := Suc (requests w2)\<rparr>)))" for u nm w2
    by (rule get_brochures_for_shop_result)
qed

theorem scrape_all_order_witness:
  "get_hypermarket_links (example_site False) example_world
     = (example_shops, example_world\<lparr>requests := 1\<rparr>)
   \<and> map (map title) (shop_runs (example_site False) (length example_shops) 0 example_shops
                        (example_world\<lparr>requests := 1\<rparr>))
       = [[''a1'', ''a2''], [''b1''], [''c1'', ''c2'', ''c3'']]
   \<and> map title (fst (scrape_all_hypermarkets (example_site False) example_world))
       = [''a1'', ''a2'', ''b1'', ''c1'', ''c2'', ''c3'']"
proof -
  have h: "get_hypermarket_links (example_site False) example_world
     = (example_shops, example_world\<lparr>requests := 1\<rparr>)" by code_simp
  have v: "map (map title) (shop_runs (example_site False) (length example_shops) 0 example_shops
                        (example_world\<lparr>requests := 1\<rparr>))
       = [[''a1'', ''a2''], [''b1''], [''c1'', ''c2'', ''c3'']]" by code_simp
  from scrape_all_order [OF h]
  have "fst (scrape_all_hypermarkets (example_site False) example_world)
        = concat (shop_runs (example_site False) (length example_shops) 0 example_shops
                    (example_world\<lparr>requests := 1\<rparr>))" by blast
  then have "map title (fst (scrape_all_hypermarkets (example_site False) example_world))
        = concat (map (map title) (shop_runs (example_site False) (length example_shops) 0
                    example_shops (example_world\<lparr>requests := 1\<rparr>)))"
    by (simp only: map_concat)
  also have "\<dots> = [''a1'', ''a2'', ''b1'', ''c1'', ''c2'', ''c3'']"
    unfolding v by simp
  finally show ?thesis using h v by blast
qed

text \<open>
  C9. When the request for the page of one shop fails, that shop contributes the empty
  sequence and the run goes on: the aggregate is the records gathered from the shops before
  it, followed by the records of the run over the shops after it. The failed request
  changes the world only by the count of requests and the pause, so the later shops read
  the clock as they would have. With B failing among A, B and C the aggregate is the
  records of A followed by those of C.
\<close>

theorem scrape_all_fetch_failure:
  assumes "get_hypermarket_links e w = (pre @ b # post, w1)"
    and "shops_loop e (length (pre @ b # post)) 0 pre [] w1 = (recs, wp)"
    and "web e (requests wp) (shop_full_url e (url b)) = None"
  shows "get_brochures_for_shop e (url b) (name b) wp = ([], wp\<lparr>requests := Suc (requests wp)\<rparr>)
         \<and> fst (scrape_all_hypermarkets e w) =
             recs @ fst (shops_loop e (length (pre @ b # post)) (Suc (length pre)) post []
                           (if post \<noteq> [] then time_sleep 1 (wp\<lparr>requests := Suc (requests wp)\<rparr>)
                            else wp\<lparr>requests := Suc (requests wp)\<rparr>))"
proof -
  let ?n = "length (pre @ b # post)"
  let ?wf = "wp\<lparr>requests := Suc (requests wp)\<rparr>"
  let ?wb = "if post \<noteq> [] then time_sleep 1 ?wf else ?wf"
  have g: "get_brochures_for_shop e (url b) (name b) wp = ([], ?wf)"
    using assms(3) by (rule get_brochures_for_shop_failed)
  have c: "(int (length pre) < int ?n - 1) = (post \<noteq> [])" by auto
  have "shops_loop e ?n 0 (pre @ b # post) [] w1
        = shops_loop e ?n (length pre) (b # post) recs wp"
    using assms(2) by (simp add: shops_loop_append)
  also have "\<dots> = shops_loop e ?n (Suc (length pre)) post recs ?wb"
    using g c by (simp add: Let_def)
  finally have "fst (shops_loop e ?n 0 (pre @ b # post) [] w1)
        = recs @ fst (shops_loop e ?n (Suc (length pre)) post [] ?wb)"
    by (subst (asm) (2) shops_loop_from_empty) simp
  then have "fst (scrape_all_hypermarkets e w)
        = recs @ fst (shops_loop e ?n (Suc (length pre)) post [] ?wb)"
    using assms(1) by (simp add: scrape_all_hypermarkets_def)
  with g show ?thesis by blast
qed


theorem scrape_all_fetch_failure_witness:
  "get_hypermarket_links (example_site True) example_world
     = ([\<lparr>url = Some ''/a/'', name = ''A''\<rparr>] @ \<lparr>url = Some ''/b/'', name = ''B''\<rparr>
          # [\<lparr>url = Some ''/c/'', name = ''C''\<rparr>], example_world\<lparr>requests := 1\<rparr>)
   \<and> web (example_site True)
         (requests (snd (shops_loop (example_site True) 3 0 [\<lparr>url = Some ''/a/'', name = ''A''\<rparr>]
                           [] (example_world\<lparr>requests := 1\<rparr>))))
         (shop_full_url (example_site True) (Some ''/b/'')) = None
   \<and> map title (fst (shops_loop (example_site True) 3 0 [\<lparr>url = Some ''/a/'', name = ''A''\<rparr>]
                        [] (example_world\<lparr>requests := 1\<rparr>))) = [''a1'', ''a2'']
   \<and> map title (fst (scrape_all_hypermarkets (example_site True) example_world))
       = [''a1'', ''a2'', ''c1'', ''c2'', ''c3'']"
proof -
  let ?e = "example_site True"
  let ?A = "\<lparr>url = Some ''/a/'', name = ''A''\<rparr>"
  let ?B = "\<lparr>url = Some ''/b/'', name = ''B''\<rparr>"
  let ?C = "\<lparr>url = Some ''/c/'', name = ''C''\<rparr>"
  let ?w1 = "example_world\<lparr>requests := 1\<rparr>"
  let ?recs = "fst (shops_loop ?e 3 0 [?A] [] ?w1)"
  let ?wp = "snd (shops_loop ?e 3 0 [?A] [] ?w1)"
  have h1: "get_hypermarket_links ?e example_world = ([?A] @ ?B # [?C], ?w1)" by code_simp
  have n: "length ([?A] @ ?B # [?C]) = 3" by simp
  have h2: "shops_loop ?e (length ([?A] @ ?B # [?C])) 0 [?A] [] ?w1 = (?recs, ?wp)"
    unfolding n by simp
  have h3: "web ?e (requests ?wp) (shop_full_url ?e (url ?B)) = None" by code_simp
  have v1: "map title ?recs = [''a1'', ''a2'']" by code_simp
  have v2: "map title (fst (shops_loop ?e (length ([?A] @ ?B # [?C])) (Suc (length [?A])) [?C] []
                 (if [?C] \<noteq> [] then time_sleep 1 (?wp\<lparr>requests := Suc (requests ?wp)\<rparr>)
                  else ?wp\<lparr>requests := Suc (requests ?wp)\<rparr>)))
            = [''c1'', ''c2'', ''c3'']" by code_simp
  from scrape_all_fetch_failure [OF h1 h2 h3]
  have "fst (scrape_all_hypermarkets ?e example_world)
        = ?recs @ fst (shops_loop ?e (length ([?A] @ ?B # [?C])) (Suc (length [?A])) [?C] []
                 (if [?C] \<noteq> [] then time_sleep 1 (?wp\<lparr>requests := Suc (requests ?wp)\<rparr>)
                  else ?wp\<lparr>requests := Suc (requests ?wp)\<rparr>))" by blast
  then have "map title (fst (scrape_all_hypermarkets ?e example_world))
        = map title ?recs @ map title (fst (shops_loop ?e (length ([?A] @ ?B # [?C]))
                 (Suc (length [?A])) [?C] []
                 (if [?C] \<noteq> [] then time_sleep 1 (?wp\<lparr>requests := Suc (requests ?wp)\<rparr>)
                  else ?wp\<lparr>requests := Suc (requests ?wp)\<rparr>)))"
    by (simp only: map_append)
  then have r: "map title (fst (scrape_all_hypermarkets ?e example_world))
        = [''a1'', ''a2'', ''c1'', ''c2'', ''c3'']"
    unfolding v1 v2 by simp
  have h3': "web ?e (requests ?wp) (shop_full_url ?e (Some ''/b/'')) = None"
    using h3 by simp
  from h1 h3' v1 r show ?thesis by blast
qed

end
